theory Spec2Isabelle
  imports Main "HOL-Library.Word"
begin

unbundle bit_operations_syntax

section \<open>Machine model\<close>

text \<open>
  The library is C++ compiled for a 64-bit target: \<open>Element = uint32_t\<close> is a
  32-bit word, \<open>size_t\<close> a 64-bit word.  When a \<open>uint32_t\<close> meets a \<open>size_t\<close> in
  an expression it is widened (\<open>ucast\<close>) after the 32-bit sub-expression has been
  computed; this is where the two widths become visible.

  A \<open>std::array\<close> member that the constructor does not initialise holds
  indeterminate values.  An array is therefore a list of optional cells: \<open>None\<close>
  is a cell that was never written.  Reading outside the array or reading a cell
  that was never written is undefined behaviour in the source; the model makes
  both an explicit error, next to the one exception the field throws
  (\<open>std::invalid_argument\<close> on a zero divisor).
\<close>

type_synonym Element = "32 word"
type_synonym size_t = "64 word"

datatype error = DivideByZero | OutOfBounds | Indeterminate

definition then_do :: "error + 'a \<Rightarrow> ('a \<Rightarrow> error + 'b) \<Rightarrow> error + 'b" where
  "then_do r f = (case r of Inl e \<Rightarrow> Inl e | Inr v \<Rightarrow> f v)"

definition array_get :: "'a option list \<Rightarrow> nat \<Rightarrow> error + 'a" where
  "array_get arr i =
     (if i < length arr
      then (case arr ! i of Some v \<Rightarrow> Inr v | None \<Rightarrow> Inl Indeterminate)
      else Inl OutOfBounds)"

definition array_set :: "'a option list \<Rightarrow> nat \<Rightarrow> 'a \<Rightarrow> error + 'a option list" where
  "array_set arr i v =
     (if i < length arr then Inr (arr[i := Some v]) else Inl OutOfBounds)"

text \<open>\<open>for (size_t i = lo; i < hi; ++i) body\<close>, stopping at the first error.\<close>

function for_loop :: "nat \<Rightarrow> nat \<Rightarrow> (nat \<Rightarrow> 's \<Rightarrow> error + 's) \<Rightarrow> 's \<Rightarrow> error + 's" where
  "for_loop i hi body s =
     (if i < hi
      then (case body i s of Inl e \<Rightarrow> Inl e | Inr s' \<Rightarrow> for_loop (Suc i) hi body s')
      else Inr s)"
  by pat_completeness auto
termination
  by (relation "measure (\<lambda>(i, hi, body, s). hi - i)") auto

declare for_loop.simps [simp del]

section \<open>GaloisField\<close>

record GaloisField =
  gf_m :: nat
  exp_table :: "Element option list"
  log_table :: "Element option list"
  primitive_poly :: Element

text \<open>\<open>static constexpr size_t field_size = 1u << m\<close>\<close>

definition field_size :: "nat \<Rightarrow> size_t" where
  "field_size m = ucast (push_bit m (1 :: 32 word))"

text \<open>The body of the first loop of \<open>build_tables\<close>:
  \<open>value <<= 1; if (value & field_size) value ^= primitive_poly;\<close>\<close>

definition shift_reduce :: "nat \<Rightarrow> Element \<Rightarrow> Element \<Rightarrow> Element" where
  "shift_reduce m prim_poly v =
     (let v1 = push_bit 1 v
      in if (ucast v1 :: size_t) AND field_size m \<noteq> 0 then v1 XOR prim_poly else v1)"

definition build_exp ::
  "nat \<Rightarrow> Element \<Rightarrow> Element option list \<Rightarrow> error + Element option list" where
  "build_exp m prim_poly exp0 =
     then_do (array_set exp0 0 1) (\<lambda>exp1.
     then_do (for_loop 1 (2 ^ m)
               (\<lambda>i (v, tbl).
                  let v' = shift_reduce m prim_poly v
                  in then_do (array_set tbl (i mod (2 ^ m - 1)) v') (\<lambda>tbl'. Inr (v', tbl')))
               (1, exp1))
       (\<lambda>(v, tbl). Inr tbl))"

definition build_log ::
  "nat \<Rightarrow> Element option list \<Rightarrow> Element option list \<Rightarrow> error + Element option list" where
  "build_log m exp_t log0 =
     then_do (array_set log0 0 0) (\<lambda>log1.
     for_loop 0 (2 ^ m - 1)
       (\<lambda>i tbl. then_do (array_get exp_t i) (\<lambda>e. array_set tbl (unat e) (of_nat i)))
       log1)"

text \<open>The constructor \<open>GaloisField(Element prim_poly)\<close>: both tables start
  uninitialised and \<open>build_tables\<close> fills them.\<close>

definition GaloisField_new :: "nat \<Rightarrow> Element \<Rightarrow> error + GaloisField" where
  "GaloisField_new m prim_poly =
     then_do (build_exp m prim_poly (replicate (2 ^ m) None)) (\<lambda>exp_t.
     then_do (build_log m exp_t (replicate (2 ^ m) None)) (\<lambda>log_t.
     Inr \<lparr> gf_m = m, exp_table = exp_t, log_table = log_t, primitive_poly = prim_poly \<rparr>))"

definition add :: "Element \<Rightarrow> Element \<Rightarrow> Element" where
  "add a b = a XOR b"

definition multiply :: "GaloisField \<Rightarrow> Element \<Rightarrow> Element \<Rightarrow> error + Element" where
  "multiply gf a b =
     (if a = 0 \<or> b = 0 then Inr 0
      else then_do (array_get (log_table gf) (unat a)) (\<lambda>la.
           then_do (array_get (log_table gf) (unat b)) (\<lambda>lb.
           let log_sum = (ucast (la + lb) :: size_t) mod (field_size (gf_m gf) - 1)
           in array_get (exp_table gf) (unat log_sum))))"

definition divide_gf :: "GaloisField \<Rightarrow> Element \<Rightarrow> Element \<Rightarrow> error + Element" where
  "divide_gf gf a b =
     (if b = 0 then Inl DivideByZero
      else if a = 0 then Inr 0
      else then_do (array_get (log_table gf) (unat a)) (\<lambda>la.
           then_do (array_get (log_table gf) (unat b)) (\<lambda>lb.
           let log_diff = ((ucast (la - lb) :: size_t) + field_size (gf_m gf) - 1)
                            mod (field_size (gf_m gf) - 1)
           in array_get (exp_table gf) (unat log_diff))))"

definition power_gf :: "GaloisField \<Rightarrow> Element \<Rightarrow> size_t \<Rightarrow> error + Element" where
  "power_gf gf base exponent =
     (if base = 0 then Inr (if exponent = 0 then 1 else 0)
      else then_do (array_get (log_table gf) (unat base)) (\<lambda>lb.
           let log_result = ((ucast lb :: size_t) * exponent) mod (field_size (gf_m gf) - 1)
           in array_get (exp_table gf) (unat log_result)))"

definition inverse_gf :: "GaloisField \<Rightarrow> Element \<Rightarrow> error + Element" where
  "inverse_gf gf a =
     (if a = 0 then Inl DivideByZero
      else then_do (array_get (log_table gf) (unat a)) (\<lambda>la.
           let inv_log = (field_size (gf_m gf) - 1 - (ucast la :: size_t))
                           mod (field_size (gf_m gf) - 1)
           in array_get (exp_table gf) (unat inv_log)))"

definition get_primitive :: Element where
  "get_primitive = 2"


section \<open>HammingCode\<close>

text \<open>
  \<open>HammingCode<n, k>\<close>: a \<open>std::bitset\<close> is a list of bits, index 0 first; a
  default-constructed bitset is all zero.  Every index the class uses is bounded
  by the loop that produces it, so the bitsets are plain lists.
\<close>

definition ValidHammingParams :: "nat \<Rightarrow> nat \<Rightarrow> bool" where
  "ValidHammingParams n k \<longleftrightarrow> n > k \<and> n = 2 ^ (n - k) - 1 \<and> k = n - (n - k)"

record HammingCode =
  code_length :: nat
  data_length :: nat
  generator_matrix :: "bool list list"
  parity_check_matrix :: "bool list list"
  syndrome_table :: "nat list"

text \<open>\<open>generate_matrices\<close>, first loop: \<open>G = [I_k | P]\<close> with
  \<open>P[i][j] = ((i + 1) & (1u << j)) != 0\<close>.\<close>

definition generate_G :: "nat \<Rightarrow> nat \<Rightarrow> bool list list" where
  "generate_G n k =
     fold (\<lambda>i G.
             let row = (G ! i)[i := True];
                 row' = fold (\<lambda>j r. r[k + j := bit (i + 1) j]) [0..<n - k] row
             in G[i := row'])
          [0..<k] (replicate k (replicate n False))"

text \<open>\<open>generate_matrices\<close>, second loop: \<open>H = [P^T | I_(n-k)]\<close>.\<close>

definition generate_H :: "nat \<Rightarrow> nat \<Rightarrow> bool list list \<Rightarrow> bool list list" where
  "generate_H n k G =
     fold (\<lambda>i H.
             let row = fold (\<lambda>j r. r[j := G ! j ! (k + i)]) [0..<k] (H ! i);
                 row' = row[k + i := True]
             in H[i := row'])
          [0..<n - k] (replicate (n - k) (replicate n False))"

definition calculate_syndrome :: "nat \<Rightarrow> nat \<Rightarrow> bool list list \<Rightarrow> bool list \<Rightarrow> bool list" where
  "calculate_syndrome n k H received =
     map (\<lambda>i. fold (\<lambda>j b. b \<noteq> (received ! j \<and> H ! i ! j)) [0..<n] False) [0..<n - k]"

text \<open>\<open>std::bitset::to_ulong\<close>: bit \<open>i\<close> has weight \<open>2 ^ i\<close>.\<close>

fun to_ulong :: "bool list \<Rightarrow> nat" where
  "to_ulong [] = 0"
| "to_ulong (b # bs) = (if b then 1 else 0) + 2 * to_ulong bs"

definition build_syndrome_table :: "nat \<Rightarrow> nat \<Rightarrow> bool list list \<Rightarrow> nat list" where
  "build_syndrome_table n k H =
     fold (\<lambda>pos tbl.
             let error_pattern = (replicate n False)[pos := True];
                 syndrome = calculate_syndrome n k H error_pattern
             in tbl[to_ulong syndrome := pos])
          [0..<n] (replicate (2 ^ (n - k)) n)"

definition HammingCode_new :: "nat \<Rightarrow> nat \<Rightarrow> HammingCode" where
  "HammingCode_new n k =
     (let G = generate_G n k; H = generate_H n k G
      in \<lparr> code_length = n, data_length = k, generator_matrix = G,
           parity_check_matrix = H, syndrome_table = build_syndrome_table n k H \<rparr>)"

definition hamming_encode :: "HammingCode \<Rightarrow> bool list \<Rightarrow> bool list" where
  "hamming_encode hc data =
     (let n = code_length hc; k = data_length hc;
          codeword = fold (\<lambda>i c. c[i := data ! i]) [0..<k] (replicate n False)
      in fold (\<lambda>i c.
                 let parity = fold (\<lambda>j p. p \<noteq> (data ! j \<and> generator_matrix hc ! j ! (k + i)))
                                   [0..<k] False
                 in c[k + i := parity])
              [0..<n - k] codeword)"

definition flip :: "bool list \<Rightarrow> nat \<Rightarrow> bool list" where
  "flip w pos = w[pos := \<not> w ! pos]"

record HammingDecodeResult =
  hd_data :: "bool list"
  error_detected :: bool
  error_position :: nat

definition decode_with_detection :: "HammingCode \<Rightarrow> bool list \<Rightarrow> HammingDecodeResult" where
  "decode_with_detection hc received =
     (let n = code_length hc; k = data_length hc;
          syndrome = calculate_syndrome n k (parity_check_matrix hc) received;
          error_pos = syndrome_table hc ! to_ulong syndrome
      in if error_pos < n
         then \<lparr> hd_data = take k (flip received error_pos),
                error_detected = True, error_position = error_pos \<rparr>
         else \<lparr> hd_data = take k received,
                error_detected = False, error_position = error_pos \<rparr>)"


section \<open>GFPolynomial\<close>

text \<open>
  A \<open>GFPolynomial\<close> is its coefficient vector, index 0 the constant term; the
  field it points to is passed to each operation.  Every constructor call
  normalises.
\<close>

definition normalize :: "Element list \<Rightarrow> Element list" where
  "normalize coeffs =
     (let stripped = rev (dropWhile (\<lambda>c. c = 0) (rev coeffs))
      in if stripped = [] then [0] else stripped)"

definition degree :: "Element list \<Rightarrow> nat" where
  "degree coeffs = (if coeffs = [] then 0 else length coeffs - 1)"

text \<open>\<open>operator[]\<close>: out of range reads as zero.\<close>

definition coeff :: "Element list \<Rightarrow> nat \<Rightarrow> Element" where
  "coeff coeffs i = (if i < length coeffs then coeffs ! i else 0)"

definition set_coefficient :: "Element list \<Rightarrow> nat \<Rightarrow> Element \<Rightarrow> Element list" where
  "set_coefficient coeffs i v =
     (let resized = (if i \<ge> length coeffs
                     then coeffs @ replicate (i + 1 - length coeffs) 0 else coeffs)
      in normalize (resized[i := v]))"

definition is_zero :: "Element list \<Rightarrow> bool" where
  "is_zero coeffs = list_all (\<lambda>e. e = 0) coeffs"

definition poly_add :: "Element list \<Rightarrow> Element list \<Rightarrow> Element list" where
  "poly_add p q =
     normalize (map (\<lambda>i. add (if i < length p then p ! i else 0)
                             (if i < length q then q ! i else 0))
                    [0..<max (length p) (length q)])"

definition poly_mul :: "GaloisField \<Rightarrow> Element list \<Rightarrow> Element list \<Rightarrow> error + Element list" where
  "poly_mul gf p q =
     (if is_zero p \<or> is_zero q then Inr (normalize [0])
      else then_do
             (for_loop 0 (length p)
                (\<lambda>i. for_loop 0 (length q)
                   (\<lambda>j result. then_do (multiply gf (p ! i) (q ! j))
                      (\<lambda>product. Inr (result[i + j := add (result ! (i + j)) product]))))
                (replicate (length p + length q - 1) 0))
             (\<lambda>result. Inr (normalize result)))"

text \<open>Horner's rule over the coefficients below the leading one, highest first.\<close>

fun horner :: "GaloisField \<Rightarrow> Element \<Rightarrow> Element list \<Rightarrow> Element \<Rightarrow> error + Element" where
  "horner gf x [] result = Inr result"
| "horner gf x (c # cs) result =
     then_do (multiply gf result x) (\<lambda>rx. horner gf x cs (add rx c))"

definition evaluate :: "GaloisField \<Rightarrow> Element list \<Rightarrow> Element \<Rightarrow> error + Element" where
  "evaluate gf coeffs x =
     (if coeffs = [] then Inr 0 else horner gf x (rev (butlast coeffs)) (last coeffs))"

section \<open>ReedSolomonCode\<close>

text \<open>\<open>ReedSolomonCode<n, k, m>\<close>; the template requires
  \<open>n <= (1u << m) - 1 && k <= n && n - k <= n\<close>.\<close>

definition ValidRSParams :: "nat \<Rightarrow> nat \<Rightarrow> nat \<Rightarrow> bool" where
  "ValidRSParams n k m \<longleftrightarrow> n \<le> 2 ^ m - 1 \<and> k \<le> n \<and> n - k \<le> n"

record ReedSolomonCode =
  rs_n :: nat
  rs_k :: nat
  rs_field :: GaloisField
  rs_generator_poly :: "Element list"

definition rs_parity_length :: "ReedSolomonCode \<Rightarrow> nat" where
  "rs_parity_length rs = rs_n rs - rs_k rs"

definition error_correction_capability :: "ReedSolomonCode \<Rightarrow> nat" where
  "error_correction_capability rs = rs_parity_length rs div 2"

text \<open>\<open>generate_polynomial\<close>: \<open>g(x) = (x - \<alpha>)(x - \<alpha>\<^sup>2)\<dots>(x - \<alpha>\<^bsup>n-k\<^esup>)\<close>.\<close>

definition generate_polynomial :: "GaloisField \<Rightarrow> nat \<Rightarrow> error + Element list" where
  "generate_polynomial gf parity_length =
     for_loop 1 (parity_length + 1)
       (\<lambda>i gen_poly. then_do (power_gf gf get_primitive (of_nat i))
          (\<lambda>root. poly_mul gf gen_poly (normalize [root, 1])))
       (normalize [1])"

definition ReedSolomonCode_new :: "nat \<Rightarrow> nat \<Rightarrow> nat \<Rightarrow> Element \<Rightarrow> error + ReedSolomonCode" where
  "ReedSolomonCode_new n k m primitive_polynomial =
     then_do (GaloisField_new m primitive_polynomial) (\<lambda>gf.
     then_do (generate_polynomial gf (n - k)) (\<lambda>g.
     Inr \<lparr> rs_n = n, rs_k = k, rs_field = gf, rs_generator_poly = g \<rparr>))"

text \<open>
  \<open>polynomial_mod\<close>: the \<open>while\<close> loop runs as long as the working polynomial
  has degree at least that of the divisor and is not zero.  Nothing in the loop
  itself bounds the number of rounds, so not returning is the value \<open>None\<close>.
\<close>

definition polynomial_mod_round ::
  "GaloisField \<Rightarrow> Element list \<Rightarrow> Element list \<Rightarrow> error + Element list" where
  "polynomial_mod_round gf quo divisor =
     (let divisor_degree = degree divisor;
          lead_coeff = coeff quo (degree quo);
          divisor_lead = coeff divisor divisor_degree
      in then_do (divide_gf gf lead_coeff divisor_lead) (\<lambda>factor.
         let shift = degree quo - divisor_degree
         in for_loop 0 (divisor_degree + 1)
              (\<lambda>i q. then_do (multiply gf factor (coeff divisor i))
                 (\<lambda>term. Inr (set_coefficient q (i + shift) (add (coeff q (i + shift)) term))))
              quo))"

partial_function (option) polynomial_mod ::
  "GaloisField \<Rightarrow> Element list \<Rightarrow> Element list \<Rightarrow> (error + Element list) option" where
  "polynomial_mod gf quo divisor =
     (if degree quo \<ge> degree divisor \<and> \<not> is_zero quo
      then (case polynomial_mod_round gf quo divisor of
              Inl e \<Rightarrow> Some (Inl e)
            | Inr quo' \<Rightarrow> polynomial_mod gf quo' divisor)
      else Some (Inr quo))"

declare polynomial_mod.simps [code]

definition rs_encode :: "ReedSolomonCode \<Rightarrow> Element list \<Rightarrow> (error + Element list) option" where
  "rs_encode rs data =
     (let parity_length = rs_parity_length rs;
          shifted_poly = normalize (replicate parity_length 0 @ data)
      in case polynomial_mod (rs_field rs) shifted_poly (rs_generator_poly rs) of
           None \<Rightarrow> None
         | Some (Inl e) \<Rightarrow> Some (Inl e)
         | Some (Inr remainder) \<Rightarrow>
             Some (Inr (data @ map (coeff remainder) [0..<parity_length])))"

definition calculate_syndromes :: "ReedSolomonCode \<Rightarrow> Element list \<Rightarrow> error + Element list" where
  "calculate_syndromes rs received =
     for_loop 0 (rs_parity_length rs)
       (\<lambda>i syndromes.
          then_do (power_gf (rs_field rs) get_primitive (of_nat (i + 1))) (\<lambda>alpha_power.
          then_do (for_loop 0 (rs_n rs)
                     (\<lambda>j (syndrome, current_power).
                        then_do (multiply (rs_field rs) (received ! j) current_power) (\<lambda>t.
                        then_do (multiply (rs_field rs) current_power alpha_power) (\<lambda>next_power.
                        Inr (add syndrome t, next_power))))
                     (0, 1))
            (\<lambda>(syndrome, current_power). Inr (syndromes[i := syndrome]))))
       (replicate (rs_parity_length rs) 0)"

text \<open>A \<open>std::vector\<close> read whose index is not bounded by the enclosing loop.\<close>

definition vector_get :: "'a list \<Rightarrow> nat \<Rightarrow> error + 'a" where
  "vector_get v i = (if i < length v then Inr (v ! i) else Inl OutOfBounds)"

record bm_state =
  bm_L :: nat
  bm_pos :: nat
  bm_C :: "Element list"
  bm_B :: "Element list"
  bm_T :: "Element list"

definition discrepancy ::
  "GaloisField \<Rightarrow> Element list \<Rightarrow> Element list \<Rightarrow> nat \<Rightarrow> nat \<Rightarrow> error + Element" where
  "discrepancy gf syndromes C L i =
     then_do (vector_get syndromes i) (\<lambda>d0.
     for_loop 1 (L + 1)
       (\<lambda>j d. then_do (vector_get C j) (\<lambda>cj.
               if j \<le> i
               then then_do (vector_get syndromes (i - j)) (\<lambda>s.
                    then_do (multiply gf cj s) (\<lambda>t. Inr (add d t)))
               else Inl OutOfBounds))
       d0)"

definition rs_berlekamp_massey :: "ReedSolomonCode \<Rightarrow> Element list \<Rightarrow> error + Element list" where
  "rs_berlekamp_massey rs syndromes =
     (let parity_length = rs_parity_length rs; gf = rs_field rs;
          zeros = replicate (parity_length + 1) 0
      in then_do
           (for_loop 0 parity_length
              (\<lambda>i st.
                 then_do (discrepancy gf syndromes (bm_C st) (bm_L st) i) (\<lambda>d.
                 if d = 0 then Inr (st\<lparr> bm_pos := bm_pos st + 1 \<rparr>)
                 else
                   then_do (inverse_gf gf d) (\<lambda>d_inv.
                   then_do (for_loop 0 (parity_length + 1 - bm_pos st)
                              (\<lambda>idx C. then_do (multiply gf d_inv (bm_B st ! idx))
                                 (\<lambda>t. Inr (C[idx + bm_pos st := add (C ! (idx + bm_pos st)) t])))
                              (bm_C st))
                     (\<lambda>C'. if 2 * bm_L st \<le> i
                           then Inr (st\<lparr> bm_L := i + 1 - bm_L st, bm_T := bm_C st,
                                          bm_C := C', bm_B := bm_C st, bm_pos := 1 \<rparr>)
                           else Inr (st\<lparr> bm_T := bm_C st, bm_C := C',
                                          bm_pos := bm_pos st + 1 \<rparr>)))))
              \<lparr> bm_L = 0, bm_pos = 1, bm_C = zeros[0 := 1], bm_B = zeros[0 := 1], bm_T = zeros \<rparr>)
           (\<lambda>st. if bm_L st + 1 \<le> length (bm_C st)
                  then Inr (normalize (take (bm_L st + 1) (bm_C st)))
                  else Inl OutOfBounds))"

definition rs_chien_search :: "ReedSolomonCode \<Rightarrow> Element list \<Rightarrow> error + nat list" where
  "rs_chien_search rs error_locator =
     for_loop 0 (rs_n rs)
       (\<lambda>i positions.
          then_do (power_gf (rs_field rs) get_primitive (of_nat (rs_n rs - 1 - i))) (\<lambda>alpha_inv.
          then_do (evaluate (rs_field rs) error_locator alpha_inv) (\<lambda>v.
          Inr (if v = 0 then positions @ [i] else positions))))
       []"

text \<open>The coefficient list of the derivative as the source collects it:
  \<open>for (i = 1; i <= degree; i += 2) if (i < degree + 1) push_back(locator[i])\<close>.\<close>

definition derivative_coeffs :: "Element list \<Rightarrow> Element list" where
  "derivative_coeffs error_locator =
     map (coeff error_locator)
         (filter (\<lambda>i. odd i \<and> i < degree error_locator + 1) [1..<degree error_locator + 1])"

definition forney_algorithm ::
  "ReedSolomonCode \<Rightarrow> Element list \<Rightarrow> Element list \<Rightarrow> nat list \<Rightarrow> error + Element list" where
  "forney_algorithm rs syndromes error_locator error_positions =
     (let gf = rs_field rs;
          syndrome_poly = normalize (rev syndromes)
      in then_do (poly_mul gf syndrome_poly error_locator) (\<lambda>error_evaluator.
         let error_locator_derivative = normalize (derivative_coeffs error_locator)
         in for_loop 0 (length error_positions)
              (\<lambda>i error_values.
                 then_do (power_gf gf get_primitive (of_nat (rs_n rs - 1 - error_positions ! i)))
                   (\<lambda>alpha_inv.
                 then_do (evaluate gf error_evaluator alpha_inv) (\<lambda>numerator.
                 then_do (evaluate gf error_locator_derivative alpha_inv) (\<lambda>denominator.
                 if denominator \<noteq> 0
                 then then_do (divide_gf gf numerator denominator)
                        (\<lambda>v. Inr (error_values[i := v]))
                 else Inr error_values))))
              (replicate (length error_positions) 0)))"

record DecodeResult =
  dr_data :: "Element list"
  success :: bool
  errors_corrected :: nat
  error_positions :: "nat list"

definition rs_decode :: "ReedSolomonCode \<Rightarrow> Element list \<Rightarrow> error + DecodeResult" where
  "rs_decode rs received =
     then_do (calculate_syndromes rs received) (\<lambda>syndromes.
     if \<not> list_ex (\<lambda>s. s \<noteq> 0) syndromes
     then Inr \<lparr> dr_data = take (rs_k rs) received, success = True,
                errors_corrected = 0, error_positions = [] \<rparr>
     else
       then_do (rs_berlekamp_massey rs syndromes) (\<lambda>error_locator.
       then_do (rs_chien_search rs error_locator) (\<lambda>positions.
       if length positions > error_correction_capability rs
       then Inr \<lparr> dr_data = replicate (rs_k rs) 0, success = False,
                  errors_corrected = 0, error_positions = [] \<rparr>
       else
         then_do (forney_algorithm rs syndromes error_locator positions) (\<lambda>error_values.
         let corrected =
               fold (\<lambda>i c. c[positions ! i := add (c ! (positions ! i)) (error_values ! i)])
                    [0..<length positions] received
         in Inr \<lparr> dr_data = take (rs_k rs) corrected, success = True,
                   errors_corrected = length positions, error_positions = positions \<rparr>))))"


section \<open>BCHCode\<close>

text \<open>\<open>BCHCode<m, t>\<close> with its compile-time constants.\<close>

definition bch_code_length :: "nat \<Rightarrow> nat" where
  "bch_code_length m = 2 ^ m - 1"

definition bch_parity_length :: "nat \<Rightarrow> nat \<Rightarrow> nat" where
  "bch_parity_length m t = m * t"

definition bch_data_length :: "nat \<Rightarrow> nat \<Rightarrow> nat" where
  "bch_data_length m t = bch_code_length m - bch_parity_length m t"

record BCHCode =
  bch_m :: nat
  bch_t :: nat
  bch_field :: GaloisField
  generator_poly :: "Element list"
  roots :: "Element list"

text \<open>The range-\<open>for\<close> over the roots: \<open>generator_poly = generator_poly * (x - root)\<close>.\<close>

fun multiply_factors :: "GaloisField \<Rightarrow> Element list \<Rightarrow> Element list \<Rightarrow> error + Element list" where
  "multiply_factors gf g [] = Inr g"
| "multiply_factors gf g (root # rest) =
     then_do (poly_mul gf g (normalize [root, 1])) (\<lambda>g'. multiply_factors gf g' rest)"

text \<open>\<open>generate_bch_polynomial\<close>: the roots \<open>\<alpha>, \<alpha>\<^sup>2, \<dots>, \<alpha>\<^bsup>2t\<^esup>\<close>, sorted, adjacent
  duplicates erased (\<open>std::sort\<close>, \<open>std::unique\<close>), then the product of the
  factors \<open>{root, 1}\<close>.\<close>

definition generate_bch_polynomial ::
  "GaloisField \<Rightarrow> nat \<Rightarrow> error + (Element list \<times> Element list)" where
  "generate_bch_polynomial gf t =
     then_do (for_loop 1 (2 * t + 1)
                (\<lambda>i rs. then_do (power_gf gf get_primitive (of_nat i)) (\<lambda>r. Inr (rs @ [r])))
                [])
       (\<lambda>all_roots.
          let rs = remdups_adj (sort all_roots)
          in then_do (multiply_factors gf (normalize [1]) rs) (\<lambda>g. Inr (g, rs)))"

definition BCHCode_new :: "nat \<Rightarrow> nat \<Rightarrow> Element \<Rightarrow> error + BCHCode" where
  "BCHCode_new m t primitive_poly' =
     then_do (GaloisField_new m primitive_poly') (\<lambda>gf.
     then_do (generate_bch_polynomial gf t) (\<lambda>(g, rs).
     Inr \<lparr> bch_m = m, bch_t = t, bch_field = gf, generator_poly = g, roots = rs \<rparr>))"

text \<open>
  Modelled from the spec: \<open>GFPolynomial::divmod\<close> and \<open>GFPolynomial::coefficient\<close>,
  which \<open>BCHCode\<close> calls and no source file defines.  The specification gives
  \<open>divmod(a, b)\<close> as Euclidean division returning (quotient, remainder) with
  \<open>deg(remainder) < deg(b)\<close> and \<open>(a / b) * b + (a % b) = a\<close>, and coefficient
  access as reading zero out of range.  Only the remainder is used; it is
  computed by the long division the library itself has in
  \<open>ReedSolomonCode::polynomial_mod\<close>.
\<close>

definition divmod_remainder ::
  "GaloisField \<Rightarrow> Element list \<Rightarrow> Element list \<Rightarrow> (error + Element list) option" where
  "divmod_remainder gf a b = polynomial_mod gf a b"

definition coefficient :: "Element list \<Rightarrow> nat \<Rightarrow> Element" where
  "coefficient p i = coeff p i"

definition bch_encode :: "BCHCode \<Rightarrow> bool list \<Rightarrow> (error + bool list) option" where
  "bch_encode bch data =
     (let parity_length = bch_parity_length (bch_m bch) (bch_t bch);
          data_length = bch_data_length (bch_m bch) (bch_t bch);
          data_poly = normalize (map (\<lambda>i. if data ! i then 1 else 0) [0..<data_length]);
          shifted_data = normalize (replicate parity_length 0
                                    @ map (coefficient data_poly) [0..<data_length])
      in case divmod_remainder (bch_field bch) shifted_data (generator_poly bch) of
           None \<Rightarrow> None
         | Some (Inl e) \<Rightarrow> Some (Inl e)
         | Some (Inr remainder) \<Rightarrow>
             Some (Inr (map (\<lambda>i. coefficient remainder i \<noteq> 0) [0..<parity_length]
                        @ map (\<lambda>i. data ! i) [0..<data_length])))"

definition bch_calculate_syndromes :: "BCHCode \<Rightarrow> bool list \<Rightarrow> error + Element list" where
  "bch_calculate_syndromes bch received =
     (let received_poly =
            normalize (map (\<lambda>i. if received ! i then 1 else 0) [0..<bch_code_length (bch_m bch)])
      in for_loop 0 (2 * bch_t bch)
           (\<lambda>i syndromes.
              then_do (power_gf (bch_field bch) get_primitive (of_nat (i + 1))) (\<lambda>root.
              then_do (evaluate (bch_field bch) received_poly root) (\<lambda>s.
              Inr (syndromes[i := s]))))
           (replicate (2 * bch_t bch) 0))"

record bch_bm_state =
  bb_C :: "Element list"
  bb_B :: "Element list"
  bb_L :: nat
  bb_pos :: nat
  bb_b :: Element

definition bch_berlekamp_massey :: "BCHCode \<Rightarrow> Element list \<Rightarrow> error + Element list" where
  "bch_berlekamp_massey bch syndromes =
     (let gf = bch_field bch
      in then_do
           (for_loop 0 (length syndromes)
              (\<lambda>n st.
                 then_do (for_loop 1 (bb_L st + 1)
                            (\<lambda>i d. if i \<le> n
                                    then then_do (multiply gf (coefficient (bb_C st) i)
                                                              (syndromes ! (n - i)))
                                           (\<lambda>t. Inr (add d t))
                                    else Inl OutOfBounds)
                            (syndromes ! n))
                   (\<lambda>d.
                 if d = 0 then Inr (st\<lparr> bb_pos := bb_pos st + 1 \<rparr>)
                 else
                   then_do (divide_gf gf d (bb_b st)) (\<lambda>c.
                   then_do (for_loop 0 (degree (bb_B st) + 1)
                              (\<lambda>i term. then_do (multiply gf c (coefficient (bb_B st) i))
                                 (\<lambda>v. Inr (term[i + bb_pos st := v])))
                              (replicate (bb_pos st + degree (bb_B st) + 1) 0))
                     (\<lambda>term_coeffs.
                        let C' = poly_add (bb_C st) (normalize term_coeffs)
                        in if 2 * bb_L st \<le> n
                           then Inr \<lparr> bb_C = C', bb_B = bb_C st, bb_L = n + 1 - bb_L st,
                                      bb_pos = 1, bb_b = d \<rparr>
                           else Inr (st\<lparr> bb_C := C', bb_pos := bb_pos st + 1 \<rparr>)))))
              \<lparr> bb_C = normalize [1], bb_B = normalize [1], bb_L = 0, bb_pos = 1, bb_b = 1 \<rparr>)
           (\<lambda>st. Inr (bb_C st)))"

definition bch_chien_search :: "BCHCode \<Rightarrow> Element list \<Rightarrow> error + nat list" where
  "bch_chien_search bch error_locator =
     (let code_length = bch_code_length (bch_m bch)
      in for_loop 0 code_length
           (\<lambda>i positions.
              then_do (power_gf (bch_field bch) get_primitive (of_nat (code_length - 1 - i)))
                (\<lambda>alpha_inv.
              then_do (evaluate (bch_field bch) error_locator alpha_inv) (\<lambda>v.
              Inr (if v = 0 then positions @ [i] else positions))))
           [])"

record BCHDecodeResult =
  bd_data :: "bool list"
  bd_success :: bool
  bd_errors_corrected :: nat
  bd_error_positions :: "nat list"

definition bch_decode :: "BCHCode \<Rightarrow> bool list \<Rightarrow> error + BCHDecodeResult" where
  "bch_decode bch received =
     (let parity_length = bch_parity_length (bch_m bch) (bch_t bch);
          data_length = bch_data_length (bch_m bch) (bch_t bch);
          extract = (\<lambda>w. map (\<lambda>i. w ! (i + parity_length)) [0..<data_length])
      in then_do (bch_calculate_syndromes bch received) (\<lambda>syndromes.
         if list_all (\<lambda>s. s = 0) syndromes
         then Inr \<lparr> bd_data = extract received, bd_success = True,
                    bd_errors_corrected = 0, bd_error_positions = [] \<rparr>
         else
           then_do (bch_berlekamp_massey bch syndromes) (\<lambda>error_locator.
           then_do (bch_chien_search bch error_locator) (\<lambda>positions.
           if length positions > bch_t bch
           then Inr \<lparr> bd_data = extract received, bd_success = False,
                      bd_errors_corrected = 0, bd_error_positions = [] \<rparr>
           else
             let corrected = fold (\<lambda>pos w. flip w pos) positions received
             in Inr \<lparr> bd_data = extract corrected, bd_success = True,
                       bd_errors_corrected = length positions,
                       bd_error_positions = positions \<rparr>))))"

text \<open>\<open>galois_utils::get_default_primitive<m>()\<close>\<close>

definition get_default_primitive :: "nat \<Rightarrow> Element" where
  "get_default_primitive m =
     (if m = 3 then 0x0B
      else if m = 4 then 0x13
      else if m = 5 then 0x25
      else if m = 6 then 0x43
      else if m = 7 then 0x89
      else if m = 8 then 0x11D
      else if m = 10 then 0x409
      else if m = 12 then 0x1053
      else push_bit m 1 OR 3)"


section \<open>Template constraints\<close>



section \<open>The exponent table as an orbit\<close>

text \<open>
  The values \<open>build_tables\<close> writes are the iterates of \<open>shift_reduce\<close> on
  \<open>1\<close>, that is the powers of \<open>x\<close> modulo the polynomial.  A polynomial of degree
  \<open>m\<close> is primitive when \<open>x\<close> has multiplicative order \<open>2^m - 1\<close>: the orbit
  returns to \<open>1\<close> after \<open>2^m - 1\<close> steps and not before.
\<close>

definition valid_poly :: "nat \<Rightarrow> Element \<Rightarrow> bool" where
  "valid_poly m p \<longleftrightarrow> bit p m \<and> p < 2 ^ (m + 1)"

definition orbit :: "nat \<Rightarrow> Element \<Rightarrow> nat \<Rightarrow> Element" where
  "orbit m p i = (shift_reduce m p ^^ i) 1"

definition is_primitive_poly :: "nat \<Rightarrow> Element \<Rightarrow> bool" where
  "is_primitive_poly m p \<longleftrightarrow>
     valid_poly m p \<and> orbit m p (2 ^ m - 1) = 1 \<and> (\<forall>i \<in> {1..<2 ^ m - 1}. orbit m p i \<noteq> 1)"

definition exp_spec :: "nat \<Rightarrow> Element \<Rightarrow> Element option list" where
  "exp_spec m p =
     map (\<lambda>j. if j = 0 then Some (orbit m p (2 ^ m - 1))
               else if j < 2 ^ m - 1 then Some (orbit m p j) else None)
         [0..<2 ^ m]"

definition exp_partial :: "nat \<Rightarrow> Element \<Rightarrow> nat \<Rightarrow> nat \<Rightarrow> Element option" where
  "exp_partial m p i j =
     (if j = 0 then Some (if i \<le> 2 ^ m - 1 then 1 else orbit m p (2 ^ m - 1))
      else if j < i \<and> j < 2 ^ m - 1 then Some (orbit m p j) else None)"

definition field_tables_ok :: "nat \<Rightarrow> Element \<Rightarrow> GaloisField \<Rightarrow> bool" where
  "field_tables_ok m p gf \<longleftrightarrow>
     gf_m gf = m \<and> primitive_poly gf = p \<and> exp_table gf = exp_spec m p \<and>
     length (log_table gf) = 2 ^ m \<and> log_table gf ! 0 = Some 0 \<and>
     (\<forall>j<2 ^ m - 1. log_table gf ! unat (orbit m p j) = Some (of_nat j))"

text \<open>The same orbit computed with an accumulator, and the search for the first
  return to \<open>1\<close>, both for evaluation.\<close>

fun iterate_shift :: "nat \<Rightarrow> Element \<Rightarrow> nat \<Rightarrow> Element \<Rightarrow> Element" where
  "iterate_shift m p 0 v = v"
| "iterate_shift m p (Suc k) v = iterate_shift m p k (shift_reduce m p v)"

fun walk :: "nat \<Rightarrow> Element \<Rightarrow> nat \<Rightarrow> Element \<Rightarrow> Element option" where
  "walk m p 0 v = Some v"
| "walk m p (Suc k) v =
     (let v' = shift_reduce m p v in if v' = 1 then None else walk m p k v')"

section \<open>The multiplication the tables implement\<close>

text \<open>
  For the proofs: the discrete logarithm of an element along the orbit, the product
  of two elements as the orbit value at the sum of their logarithms (arguments are
  cut to \<open>m\<close> bits, which changes nothing for field elements), powers of a point,
  and the value of a coefficient list at a point, constant term first.
\<close>

definition dlog :: "nat \<Rightarrow> Element \<Rightarrow> Element \<Rightarrow> nat" where
  "dlog m p a = (LEAST i. orbit m p i = a)"

definition gmul :: "nat \<Rightarrow> Element \<Rightarrow> Element \<Rightarrow> Element \<Rightarrow> Element" where
  "gmul m p a b =
     (if take_bit m a = 0 \<or> take_bit m b = 0 then 0
      else orbit m p (dlog m p (take_bit m a) + dlog m p (take_bit m b)))"

definition good_poly :: "nat \<Rightarrow> Element \<Rightarrow> bool" where
  "good_poly m p \<longleftrightarrow> 1 \<le> m \<and> m < 31 \<and> is_primitive_poly m p"

definition good_field :: "nat \<Rightarrow> Element \<Rightarrow> GaloisField \<Rightarrow> bool" where
  "good_field m p gf \<longleftrightarrow> good_poly m p \<and> field_tables_ok m p gf"

definition peval :: "nat \<Rightarrow> Element \<Rightarrow> Element \<Rightarrow> Element list \<Rightarrow> Element" where
  "peval m p x cs = foldr (\<lambda>c r. c XOR gmul m p r x) cs 0"

definition els :: "nat \<Rightarrow> Element list \<Rightarrow> bool" where
  "els m cs \<longleftrightarrow> (\<forall>c \<in> set cs. c < 2 ^ m)"

fun xpow :: "nat \<Rightarrow> Element \<Rightarrow> Element \<Rightarrow> nat \<Rightarrow> Element" where
  "xpow m p x 0 = 1"
| "xpow m p x (Suc k) = gmul m p (xpow m p x k) x"

section \<open>Table construction and field operations\<close>

lemma then_do_Inr [simp]: "then_do (Inr v) f = f v"
  by (simp add: then_do_def)

lemma then_do_Inl [simp]: "then_do (Inl e) f = Inl e"
  by (simp add: then_do_def)

lemma field_size_eq: "m < 32 \<Longrightarrow> field_size m = push_bit m 1"
  unfolding field_size_def
  by (rule bit_word_eqI) (auto simp: bit_ucast_iff bit_exp_iff)

lemma field_size_test:
  assumes "m < 32"
  shows "((ucast (w :: 32 word) :: 64 word) AND field_size m \<noteq> 0) = bit w m"
proof -
  have "bit (ucast w :: 64 word) m = bit w m"
    using assms by (simp add: bit_ucast_iff)
  then show ?thesis
    using assms by (simp add: field_size_eq bit_iff_and_push_bit_not_eq_0)
qed

lemma word_lt_2p_bits:
  assumes "m < 32"
  shows "((v :: 32 word) < 2 ^ m) = (\<forall>j\<ge>m. \<not> bit v j)"
proof -
  have "(v < 2 ^ m) = (take_bit m v = v)"
    using assms mask_eq_iff_w2p [of m v] by (simp add: take_bit_eq_mask word_size)
  also have "\<dots> = (\<forall>j\<ge>m. \<not> bit v j)"
  proof
    assume a: "take_bit m v = v"
    show "\<forall>j\<ge>m. \<not> bit v j"
    proof (intro allI impI notI)
      fix j assume j: "m \<le> j" "bit v j"
      then have "bit (take_bit m v) j" by (simp only: a)
      then show False using j by (simp add: bit_take_bit_iff)
    qed
  next
    assume "\<forall>j\<ge>m. \<not> bit v j"
    then show "take_bit m v = v"
      by (intro bit_word_eqI) (auto simp: bit_take_bit_iff not_le [symmetric])
  qed
  finally show ?thesis .
qed

lemma bit_shl1: "bit (push_bit 1 (v :: 32 word)) j \<longleftrightarrow> 1 \<le> j \<and> j < 32 \<and> bit v (j - 1)"
  by (simp only: bit_push_bit_iff possible_bit_word) auto

lemma shift_reduce_alt:
  assumes "1 \<le> m" "m < 32"
  shows "shift_reduce m p v = (if bit v (m - 1) then push_bit 1 v XOR p else push_bit 1 v)"
proof -
  have "bit (push_bit 1 v) m = bit v (m - 1)"
    using assms by (simp only: bit_shl1) simp
  then show ?thesis
    using assms by (simp only: shift_reduce_def Let_def field_size_test)
qed

lemma shift_reduce_bound:
  assumes "1 \<le> m" "m < 31" "valid_poly m p" "v < 2 ^ m"
  shows "shift_reduce m p v < 2 ^ m"
proof -
  have m32: "m < 32" using assms by simp
  have v: "\<forall>j\<ge>m. \<not> bit v j" using assms word_lt_2p_bits [of m v] by simp
  have p: "\<forall>j\<ge>m + 1. \<not> bit p j" "bit p m"
    using assms word_lt_2p_bits [of "m + 1" p] by (simp_all add: valid_poly_def)
  have sh_m: "bit (push_bit 1 v) m = bit v (m - 1)"
    using assms by (simp only: bit_shl1) simp
  have sh_hi: "\<not> bit (push_bit 1 v) j" if "m + 1 \<le> j" for j
    using v that by (simp only: bit_shl1) auto
  have "\<not> bit (shift_reduce m p v) j" if j: "m \<le> j" for j
  proof (cases "bit v (m - 1)")
    case True
    have eq: "shift_reduce m p v = push_bit 1 v XOR p"
      by (simp only: shift_reduce_alt [OF assms(1) m32] True if_True)
    show ?thesis
    proof (cases "j = m")
      case jm: True
      show ?thesis unfolding eq jm bit_xor_iff sh_m using True p(2) by blast
    next
      case False
      then have "m + 1 \<le> j" using j by simp
      then show ?thesis unfolding eq bit_xor_iff using sh_hi p(1) by blast
    qed
  next
    case False
    have eq: "shift_reduce m p v = push_bit 1 v"
      by (simp only: shift_reduce_alt [OF assms(1) m32] False if_False)
    show ?thesis
    proof (cases "j = m")
      case jm: True
      show ?thesis unfolding eq jm sh_m using False by blast
    next
      case False
      then have "m + 1 \<le> j" using j by simp
      then show ?thesis unfolding eq using sh_hi by blast
    qed
  qed
  then show ?thesis using m32 word_lt_2p_bits [of m "shift_reduce m p v"] by blast
qed

lemma xor_cancel_mid: "((a :: 32 word) XOR p) XOR (b XOR p) = a XOR b"
proof -
  have "(a XOR p) XOR (b XOR p) = (a XOR b) XOR (p XOR p)"
    by (simp only: xor.assoc xor.left_commute [of p b p])
  then show ?thesis by simp
qed

lemma xor_move_left: "((a :: 32 word) XOR p) XOR b = (a XOR b) XOR p"
  by (simp only: xor.assoc xor.commute [of p b])

lemma xor_move_right: "(a :: 32 word) XOR (b XOR p) = (a XOR b) XOR p"
  by (simp only: xor.assoc)

lemma shift_reduce_xor:
  assumes "1 \<le> m" "m < 32"
  shows "shift_reduce m p (u XOR v) = shift_reduce m p u XOR shift_reduce m p v"
proof -
  have px: "push_bit 1 (u XOR v) = push_bit 1 u XOR push_bit 1 v"
    by (rule push_bit_xor)
  have b: "bit (u XOR v) (m - 1) = (bit u (m - 1) \<noteq> bit v (m - 1))"
    by (simp only: bit_xor_iff)
  show ?thesis
  proof (cases "bit u (m - 1)")
    case u: True
    show ?thesis
    proof (cases "bit v (m - 1)")
      case True
      with u show ?thesis
        by (simp only: shift_reduce_alt [OF assms] px b xor_cancel_mid if_True if_False simp_thms)
    next
      case False
      with u show ?thesis
        by (simp only: shift_reduce_alt [OF assms] px b xor_move_left if_True if_False simp_thms)
    qed
  next
    case u: False
    show ?thesis
    proof (cases "bit v (m - 1)")
      case True
      with u show ?thesis
        by (simp only: shift_reduce_alt [OF assms] px b xor_move_right if_True if_False simp_thms)
    next
      case False
      with u show ?thesis
        by (simp only: shift_reduce_alt [OF assms] px b if_True if_False simp_thms)
    qed
  qed
qed

lemma shift_reduce_0: "1 \<le> m \<Longrightarrow> m < 32 \<Longrightarrow> shift_reduce m p 0 = 0"
  by (simp add: shift_reduce_alt)

lemma unat_2p:
  assumes "m < 32" shows "unat (2 ^ m :: 32 word) = 2 ^ m"
proof -
  have lt: "(2::nat) ^ m < 2 ^ 32"
    using assms power_strict_increasing [of m 32 "2::nat"] by simp
  have "unat (of_nat (2 ^ m) :: 32 word) = 2 ^ m mod 2 ^ LENGTH(32)"
    by (rule unat_of_nat)
  then show ?thesis using lt by simp
qed

lemma unat_2p_64:
  assumes "m < 64" shows "unat (2 ^ m :: 64 word) = 2 ^ m"
proof -
  have lt: "(2::nat) ^ m < 2 ^ 64"
    using assms power_strict_increasing [of m 64 "2::nat"] by simp
  have "unat (of_nat (2 ^ m) :: 64 word) = 2 ^ m mod 2 ^ LENGTH(64)"
    by (rule unat_of_nat)
  then show ?thesis using lt by simp
qed

lemma unat_lt_2p: "m < 32 \<Longrightarrow> ((v :: 32 word) < 2 ^ m) = (unat v < 2 ^ m)"
  by (simp add: word_less_nat_alt unat_2p)

lemma pow2_gt1: "1 \<le> m \<Longrightarrow> (1::nat) < 2 ^ m"
  using one_less_power [of "2::nat" m] by simp

lemma for_loop_rule:
  assumes "I lo s" "lo \<le> hi"
    and step: "\<And>i s. i < hi \<Longrightarrow> I i s \<Longrightarrow> \<exists>s'. body i s = Inr s' \<and> I (Suc i) s'"
  shows "\<exists>s'. for_loop lo hi body s = Inr s' \<and> I hi s'"
  using assms(1,2)
proof (induction "hi - lo" arbitrary: lo s)
  case 0
  then have "lo = hi" by simp
  then show ?case using 0 by (simp add: for_loop.simps)
next
  case (Suc n)
  then have lt: "lo < hi" by simp
  obtain s' where s': "body lo s = Inr s'" "I (Suc lo) s'"
    using step [OF lt Suc.prems(1)] by auto
  have "\<exists>s''. for_loop (Suc lo) hi body s' = Inr s'' \<and> I hi s''"
  proof (rule Suc.hyps(1))
    show "n = hi - Suc lo" using Suc.hyps(2) by simp
    show "I (Suc lo) s'" by (rule s')
    show "Suc lo \<le> hi" using lt by simp
  qed
  then show ?case using lt s' by (subst for_loop.simps) simp
qed

lemma orbit_0 [simp]: "orbit m p 0 = 1"
  by (simp add: orbit_def)

lemma orbit_Suc: "orbit m p (Suc i) = shift_reduce m p (orbit m p i)"
  by (simp add: orbit_def)

lemma orbit_add: "orbit m p (i + j) = (shift_reduce m p ^^ i) (orbit m p j)"
  by (simp add: orbit_def funpow_add)

lemma one_lt_2p: "1 \<le> m \<Longrightarrow> m < 32 \<Longrightarrow> (1 :: 32 word) < 2 ^ m"
  using word_lt_2p_bits [of m 1] by (auto simp: bit_1_iff)

lemma orbit_bound:
  assumes "1 \<le> m" "m < 31" "valid_poly m p"
  shows "orbit m p i < 2 ^ m"
proof (induction i)
  case 0
  show ?case using assms one_lt_2p [of m] by simp
next
  case (Suc i)
  then show ?case using assms by (simp add: orbit_Suc shift_reduce_bound)
qed

lemma funpow_shift_reduce_0:
  "1 \<le> m \<Longrightarrow> m < 32 \<Longrightarrow> (shift_reduce m p ^^ k) 0 = 0"
  by (induction k) (simp_all add: shift_reduce_0)

lemma orbit_plus_period:
  assumes "orbit m p N = 1"
  shows "orbit m p (i + N) = orbit m p i"
  using orbit_add [of m p i N] assms by (simp add: orbit_def)

lemma orbit_mod:
  assumes per: "orbit m p N = 1"
  shows "orbit m p (i mod N) = orbit m p i"
proof (induction i rule: less_induct)
  case (less i)
  show ?case
  proof (cases "i < N")
    case True
    then show ?thesis by simp
  next
    case False
    show ?thesis
    proof (cases "N = 0")
      case True
      then show ?thesis by simp
    next
      case N: False
      from False have ge: "N \<le> i" by simp
      have "orbit m p ((i - N) mod N) = orbit m p (i - N)"
        using less.IH [of "i - N"] ge N by simp
      moreover have "(i - N) mod N = i mod N"
        using ge by (simp add: le_mod_geq)
      moreover have "orbit m p (i - N) = orbit m p i"
        using orbit_plus_period [OF per, of "i - N"] ge by simp
      ultimately show ?thesis by simp
    qed
  qed
qed

lemma orbit_inj:
  assumes per: "orbit m p N = 1"
    and ne1: "\<forall>i \<in> {1..<N}. orbit m p i \<noteq> 1"
    and ij: "i < N" "j < N" "orbit m p i = orbit m p j"
  shows "i = j"
proof -
  have aux: False if lt: "a < b" "b < N" and eq: "orbit m p a = orbit m p b" for a b
  proof -
    have "orbit m p ((N - b) + a) = orbit m p ((N - b) + b)"
      using eq by (simp only: orbit_add)
    also have "(N - b) + b = N" using lt by simp
    finally have "orbit m p ((N - b) + a) = 1" by (simp only: per)
    moreover have "(N - b) + a \<in> {1..<N}" using lt by auto
    ultimately show False using ne1 by blast
  qed
  show ?thesis
    using aux [of i j] aux [of j i] ij by (cases i j rule: linorder_cases) simp_all
qed

lemma orbit_ne_0:
  assumes m: "1 \<le> m" "m < 32" and per: "orbit m p N = 1" and N: "0 < N"
  shows "orbit m p i \<noteq> 0"
proof
  assume z: "orbit m p i = 0"
  have "orbit m p (N * Suc i) = orbit m p ((N * Suc i) mod N)"
    by (simp only: orbit_mod [OF per])
  then have one: "orbit m p (N * Suc i) = 1" by simp
  have "i \<le> N * Suc i" using N by (cases N) simp_all
  then have "N * Suc i = (N * Suc i - i) + i" by simp
  then have "orbit m p (N * Suc i) = (shift_reduce m p ^^ (N * Suc i - i)) (orbit m p i)"
    using orbit_add [of m p "N * Suc i - i" i] by simp
  then have "orbit m p (N * Suc i) = 0"
    using m by (simp only: z funpow_shift_reduce_0)
  with one show False by simp
qed

lemma orbit_surj:
  assumes m: "1 \<le> m" "m < 31" and prim: "is_primitive_poly m p"
    and a: "a \<noteq> 0" "a < 2 ^ m"
  shows "\<exists>i < 2 ^ m - 1. orbit m p i = a"
proof -
  let ?N = "2 ^ m - 1 :: nat"
  let ?f = "\<lambda>i. unat (orbit m p i)"
  have per: "orbit m p ?N = 1" and ne1: "\<forall>i \<in> {1..<?N}. orbit m p i \<noteq> 1"
    and vp: "valid_poly m p"
    using prim by (simp_all add: is_primitive_poly_def)
  have m32: "m < 32" using m by simp
  have inj: "inj_on ?f {..<?N}"
  proof (rule inj_onI)
    fix x y assume "x \<in> {..<?N}" "y \<in> {..<?N}" "?f x = ?f y"
    then show "x = y" using orbit_inj [OF per ne1, of x y] by (simp add: word_unat_eq_iff)
  qed
  have sub: "?f ` {..<?N} \<subseteq> {1..<2 ^ m}"
  proof
    fix y assume "y \<in> ?f ` {..<?N}"
    then obtain i where i: "y = ?f i" by blast
    have "orbit m p i < 2 ^ m" using orbit_bound [OF m vp] .
    then have "unat (orbit m p i) < 2 ^ m" using unat_lt_2p [OF m32] by blast
    moreover have "unat (orbit m p i) \<noteq> 0"
      using orbit_ne_0 [OF m(1) m32 per, of i] pow2_gt1 [OF m(1)] by (simp add: unat_eq_0)
    ultimately show "y \<in> {1..<2 ^ m}" using i by simp
  qed
  have "card (?f ` {..<?N}) = ?N" using inj by (simp add: card_image)
  then have "card (?f ` {..<?N}) = card {1..<(2::nat) ^ m}" by simp
  then have eq: "?f ` {..<?N} = {1..<2 ^ m}"
    using sub by (intro card_subset_eq) simp_all
  have "unat a \<in> {1..<2 ^ m}"
    using a unat_lt_2p [OF m32, of a] by (simp add: unat_eq_0 Suc_le_eq unat_gt_0)
  then obtain i where "i < ?N" "unat (orbit m p i) = unat a"
    using eq by (metis (no_types, lifting) imageE lessThan_iff)
  then show ?thesis by (intro exI [of _ i]) (simp add: word_unat_eq_iff)
qed

lemma array_set_ok: "i < length arr \<Longrightarrow> array_set arr i v = Inr (arr[i := Some v])"
  by (simp add: array_set_def)

lemma array_get_ok: "i < length arr \<Longrightarrow> arr ! i = Some v \<Longrightarrow> array_get arr i = Inr v"
  by (simp add: array_get_def)

lemma exp_partial_step:
  assumes "1 \<le> i" "i < 2 ^ m" "j \<noteq> (if i < 2 ^ m - 1 then i else 0)"
  shows "exp_partial m p (Suc i) j = exp_partial m p i j"
  using assms by (auto simp: exp_partial_def)

lemma exp_partial_new:
  assumes "1 \<le> i" "i < 2 ^ m"
  shows "exp_partial m p (Suc i) (if i < 2 ^ m - 1 then i else 0) = Some (orbit m p i)"
proof (cases "i < 2 ^ m - 1")
  case True
  then show ?thesis using assms by (simp add: exp_partial_def)
next
  case False
  then have "i = 2 ^ m - 1" using assms by simp
  then show ?thesis using assms by (simp add: exp_partial_def)
qed

lemma build_exp_loop:
  assumes m: "1 \<le> m"
  shows "\<exists>s'. for_loop 1 (2 ^ m)
           (\<lambda>i (v, tbl).
               let v' = shift_reduce m p v
               in then_do (array_set tbl (i mod (2 ^ m - 1)) v') (\<lambda>tbl'. Inr (v', tbl')))
           (1, (replicate (2 ^ m) None)[0 := Some 1]) = Inr s'
         \<and> snd s' = exp_spec m p"
proof -
  define N :: nat where "N = 2 ^ m - 1"
  have N: "0 < N" "2 ^ m = Suc N" using pow2_gt1 [OF m] by (simp_all add: N_def)
  define I where "I = (\<lambda>i (s :: Element \<times> Element option list).
     1 \<le> i \<and> fst s = orbit m p (i - 1) \<and> length (snd s) = Suc N \<and>
     (\<forall>j<Suc N. snd s ! j = exp_partial m p i j))"
  let ?body = "\<lambda>i (v, tbl).
               let v' = shift_reduce m p v
               in then_do (array_set tbl (i mod N) v') (\<lambda>tbl'. Inr (v', tbl'))"
  have init: "I 1 (1, (replicate (Suc N) None)[0 := Some 1])"
    using N by (auto simp: I_def nth_list_update exp_partial_def)
  have step: "\<exists>s'. ?body i s = Inr s' \<and> I (Suc i) s'" if "i < Suc N" "I i s" for i s
  proof -
    obtain v tbl where s: "s = (v, tbl)" by (cases s)
    have i1: "1 \<le> i" and v: "v = orbit m p (i - 1)" and len: "length tbl = Suc N"
      and tbl: "\<And>j. j < Suc N \<Longrightarrow> tbl ! j = exp_partial m p i j"
      using that(2) by (simp_all add: I_def s)
    have v': "shift_reduce m p v = orbit m p i"
      using i1 v orbit_Suc [of m p "i - 1"] by simp
    define k where "k = (if i < N then i else 0)"
    have idx: "i mod N = k"
    proof (cases "i < N")
      case True
      then show ?thesis by (simp add: k_def)
    next
      case False
      then have "i = N" using that(1) by simp
      then show ?thesis by (simp add: k_def)
    qed
    have k_lt: "k < length tbl" using len by (auto simp: k_def)
    have body: "?body i s = Inr (orbit m p i, tbl[k := Some (orbit m p i)])"
      by (simp add: s Let_def v' idx array_set_ok [OF k_lt])
    have i2: "i < 2 ^ m" using that(1) N by simp
    have "tbl[k := Some (orbit m p i)] ! j = exp_partial m p (Suc i) j" if j: "j < Suc N" for j
    proof (cases "j = k")
      case True
      then show ?thesis
        using exp_partial_new [OF i1 i2, of p] k_lt by (simp add: k_def N(2))
    next
      case False
      then have "exp_partial m p (Suc i) j = exp_partial m p i j"
        using exp_partial_step [OF i1 i2, of j p] by (simp add: k_def N(2))
      then show ?thesis using False tbl [OF j] by simp
    qed
    then have "I (Suc i) (orbit m p i, tbl[k := Some (orbit m p i)])"
      by (simp add: I_def len)
    then show ?thesis using body by blast
  qed
  have "\<exists>s'. for_loop 1 (Suc N) ?body (1, (replicate (Suc N) None)[0 := Some 1]) = Inr s'
          \<and> I (Suc N) s'"
    by (rule for_loop_rule [where I = I, OF init _ step]) simp_all
  then obtain s' where s': "for_loop 1 (Suc N) ?body (1, (replicate (Suc N) None)[0 := Some 1]) = Inr s'"
    "I (Suc N) s'" by blast
  have "snd s' = exp_spec m p"
  proof (rule nth_equalityI)
    show "length (snd s') = length (exp_spec m p)"
      using s'(2) N by (simp add: I_def exp_spec_def)
  next
    fix j assume "j < length (snd s')"
    then have j: "j < Suc N" using s'(2) by (simp add: I_def)
    then have "snd s' ! j = exp_partial m p (Suc N) j"
      using s'(2) by (simp add: I_def)
    moreover have "exp_spec m p ! j = exp_partial m p (Suc N) j"
      using j N by (simp add: exp_spec_def exp_partial_def del: upt_Suc)
    ultimately show "snd s' ! j = exp_spec m p ! j" by simp
  qed
  moreover have "2 ^ m - 1 = N" by (simp add: N_def)
  ultimately show ?thesis using s'(1) N(2) by auto
qed

lemma build_exp_eq:
  assumes m: "1 \<le> m"
  shows "build_exp m p (replicate (2 ^ m) None) = Inr (exp_spec m p)"
proof -
  obtain s' where s': "for_loop 1 (2 ^ m)
           (\<lambda>i (v, tbl).
               let v' = shift_reduce m p v
               in then_do (array_set tbl (i mod (2 ^ m - 1)) v') (\<lambda>tbl'. Inr (v', tbl')))
           (1, (replicate (2 ^ m) None)[0 := Some 1]) = Inr s'" "snd s' = exp_spec m p"
    using build_exp_loop [OF m, of p] by blast
  have "array_set (replicate (2 ^ m) None) 0 (1 :: Element) = Inr ((replicate (2 ^ m) None)[0 := Some 1])"
    by (simp add: array_set_ok)
  then show ?thesis
    unfolding build_exp_def using s' by (simp add: case_prod_beta)
qed

lemma exp_spec_length [simp]: "length (exp_spec m p) = 2 ^ m"
  by (simp add: exp_spec_def)

lemma exp_spec_nth:
  assumes "j < 2 ^ m"
  shows "exp_spec m p ! j =
           (if j = 0 then Some (orbit m p (2 ^ m - 1))
            else if j < 2 ^ m - 1 then Some (orbit m p j) else None)"
  using assms by (simp add: exp_spec_def del: upt_Suc)

lemma exp_spec_prim:
  assumes "is_primitive_poly m p" "j < 2 ^ m - 1"
  shows "exp_spec m p ! j = Some (orbit m p j)"
proof -
  have "orbit m p (2 ^ m - 1) = 1" using assms by (simp add: is_primitive_poly_def)
  then show ?thesis using assms exp_spec_nth [of j m p] by simp
qed

lemma build_log_loop:
  assumes m: "1 \<le> m" "m < 31" and vp: "valid_poly m p"
  shows "\<exists>L. build_log m (exp_spec m p) (replicate (2 ^ m) None) = Inr L
           \<and> length L = 2 ^ m
           \<and> (is_primitive_poly m p \<longrightarrow>
                L ! 0 = Some 0 \<and> (\<forall>j<2 ^ m - 1. L ! unat (orbit m p j) = Some (of_nat j)))"
proof -
  define N :: nat where "N = 2 ^ m - 1"
  have N: "0 < N" "2 ^ m = Suc N" using pow2_gt1 [OF m(1)] by (simp_all add: N_def)
  have N': "2 ^ m - 1 = N" by (simp add: N_def)
  have m32: "m < 32" using m by simp
  define I where "I = (\<lambda>i (tbl :: Element option list).
     length tbl = Suc N \<and>
     (is_primitive_poly m p \<longrightarrow>
        tbl ! 0 = Some 0 \<and> (\<forall>j<i. tbl ! unat (orbit m p j) = Some (of_nat j))))"
  let ?body = "\<lambda>i tbl. then_do (array_get (exp_spec m p) i)
                 (\<lambda>e. array_set tbl (unat e) (of_nat i :: Element))"
  have ob: "unat (orbit m p j) < Suc N" for j
    using orbit_bound [OF m vp, of j] unat_lt_2p [OF m32, of "orbit m p j"] N(2) by simp
  have init: "I 0 ((replicate (Suc N) None)[0 := Some 0])"
    by (simp add: I_def)
  have step: "\<exists>s'. ?body i s = Inr s' \<and> I (Suc i) s'" if i: "i < N" and inv: "I i s" for i s
  proof -
    have len: "length s = Suc N" using inv by (simp add: I_def)
    define e where "e = (if i = 0 then orbit m p N else orbit m p i)"
    have "exp_spec m p ! i = Some e"
      using exp_spec_nth [of i m p] i by (simp add: N(2) e_def)
    then have get: "array_get (exp_spec m p) i = Inr e"
      using i by (intro array_get_ok) (simp_all add: N(2))
    have e_lt: "unat e < length s" using ob len by (simp add: e_def)
    have body: "?body i s = Inr (s[unat e := Some (of_nat i)])"
      by (simp add: get array_set_ok [OF e_lt])
    have "I (Suc i) (s[unat e := Some (of_nat i)])"
      unfolding I_def
    proof (intro conjI impI)
      show "length (s[unat e := Some (of_nat i)]) = Suc N" using len by simp
    next
      assume prim: "is_primitive_poly m p"
      have per: "orbit m p N = 1" and ne1: "\<forall>i \<in> {1..<N}. orbit m p i \<noteq> 1"
        using prim unfolding is_primitive_poly_def N' by blast+
      have e: "e = orbit m p i" using per by (simp add: e_def)
      have e0: "unat e \<noteq> 0"
        using orbit_ne_0 [OF m(1) m32 per N(1), of i] by (simp add: e unat_eq_0)
      from inv prim have old: "s ! 0 = Some 0" "\<And>j. j < i \<Longrightarrow> s ! unat (orbit m p j) = Some (of_nat j)"
        by (simp_all add: I_def)
      show "s[unat e := Some (of_nat i)] ! 0 = Some 0"
        using e0 old(1) by (simp add: nth_list_update)
      show "\<forall>j<Suc i. s[unat e := Some (of_nat i)] ! unat (orbit m p j) = Some (of_nat j)"
      proof (intro allI impI)
        fix j assume j: "j < Suc i"
        show "s[unat e := Some (of_nat i)] ! unat (orbit m p j) = Some (of_nat j)"
        proof (cases "j = i")
          case True
          then show ?thesis using e_lt by (simp add: e)
        next
          case False
          then have ji: "j < i" using j by simp
          have "orbit m p j \<noteq> orbit m p i"
            using orbit_inj [OF per ne1, of j i] ji i by auto
          then have "unat (orbit m p j) \<noteq> unat e"
            by (simp add: e word_unat_eq_iff)
          then show ?thesis using old(2) [OF ji] by (simp add: nth_list_update)
        qed
      qed
    qed
    then show ?thesis using body by blast
  qed
  have "\<exists>s'. for_loop 0 N ?body ((replicate (Suc N) None)[0 := Some 0]) = Inr s' \<and> I N s'"
    by (rule for_loop_rule [where I = I, OF init _ step]) simp_all
  then obtain L where L: "for_loop 0 N ?body ((replicate (Suc N) None)[0 := Some 0]) = Inr L"
    "I N L" by blast
  have "build_log m (exp_spec m p) (replicate (2 ^ m) None) = Inr L"
    unfolding build_log_def N' N(2) using L(1) by (simp add: array_set_ok)
  moreover have "length L = 2 ^ m" using L(2) by (simp add: I_def N(2))
  moreover have "L ! 0 = Some 0 \<and> (\<forall>j<2 ^ m - 1. L ! unat (orbit m p j) = Some (of_nat j))"
    if "is_primitive_poly m p"
    using L(2) that unfolding I_def N' by blast
  ultimately show ?thesis by blast
qed

lemma GaloisField_new_total:
  assumes m: "1 \<le> m" "m < 31" and vp: "valid_poly m p"
  shows "\<exists>gf. GaloisField_new m p = Inr gf \<and> gf_m gf = m \<and> primitive_poly gf = p
           \<and> exp_table gf = exp_spec m p \<and> length (log_table gf) = 2 ^ m"
proof -
  obtain L where L: "build_log m (exp_spec m p) (replicate (2 ^ m) None) = Inr L"
    "length L = 2 ^ m"
    using build_log_loop [OF m vp] by blast
  show ?thesis
    unfolding GaloisField_new_def by (simp add: build_exp_eq [OF m(1)] L)
qed

lemma GaloisField_new_primitive:
  assumes m: "1 \<le> m" "m < 31" and prim: "is_primitive_poly m p"
  shows "\<exists>gf. GaloisField_new m p = Inr gf \<and> field_tables_ok m p gf"
proof -
  have vp: "valid_poly m p" using prim by (simp add: is_primitive_poly_def)
  obtain L where L: "build_log m (exp_spec m p) (replicate (2 ^ m) None) = Inr L"
    "length L = 2 ^ m" "L ! 0 = Some 0" "\<forall>j<2 ^ m - 1. L ! unat (orbit m p j) = Some (of_nat j)"
    using build_log_loop [OF m vp] prim by blast
  show ?thesis
    unfolding GaloisField_new_def by (simp add: build_exp_eq [OF m(1)] L field_tables_ok_def)
qed

lemma unat_field_size: "m < 32 \<Longrightarrow> unat (field_size m) = 2 ^ m"
  using unat_2p_64 [of m] by (simp add: field_size_eq)

lemma unat_field_size_m1:
  assumes "m < 32" shows "unat (field_size m - 1) = 2 ^ m - 1"
proof -
  have "field_size m \<noteq> 0"
    using unat_field_size [OF assms] by (metis power_not_zero unat_0 zero_neq_numeral)
  then show ?thesis using unat_minus_one [of "field_size m"] unat_field_size [OF assms] by simp
qed

lemma index_lt:
  assumes "1 \<le> m" "m < 32"
  shows "unat (x mod (field_size m - 1)) < 2 ^ m - 1"
proof -
  have "unat (x mod (field_size m - 1)) = unat x mod (2 ^ m - 1)"
    by (simp add: unat_mod unat_field_size_m1 [OF assms(2)])
  moreover have "(0::nat) < 2 ^ m - 1" using pow2_gt1 [OF assms(1)] by simp
  ultimately show ?thesis by simp
qed

lemma unat_ucast_32_64: "unat (ucast (w :: 32 word) :: 64 word) = unat w"
proof -
  have "unat w < 2 ^ 32" using unsigned_less [of w, where 'a = nat] by simp
  then have "unat w < 2 ^ 64" by simp
  then show ?thesis
    by (simp add: unsigned_ucast_eq take_bit_nat_eq_self)
qed

lemma unat_of_nat_32: "n < 2 ^ 32 \<Longrightarrow> unat (of_nat n :: 32 word) = n"
  by (simp add: unat_of_nat)

lemma zero_lt_2p: "m < 32 \<Longrightarrow> (0 :: 32 word) < 2 ^ m"
  using word_lt_2p_bits [of m 0] by simp

lemma exp_get:
  assumes "field_tables_ok m p gf" "is_primitive_poly m p" "k < 2 ^ m - 1"
  shows "array_get (exp_table gf) k = Inr (orbit m p k)"
proof -
  have "exp_table gf = exp_spec m p" using assms(1) by (simp add: field_tables_ok_def)
  moreover have "exp_spec m p ! k = Some (orbit m p k)"
    using exp_spec_prim [OF assms(2,3)] .
  ultimately show ?thesis using assms(3) by (intro array_get_ok) simp_all
qed

lemma log_get:
  assumes m: "1 \<le> m" "m < 31" and ok: "field_tables_ok m p gf" and prim: "is_primitive_poly m p"
    and a: "a \<noteq> 0" "a < 2 ^ m"
  shows "\<exists>i<2 ^ m - 1. a = orbit m p i \<and> array_get (log_table gf) (unat a) = Inr (of_nat i)"
proof -
  obtain i where i: "i < 2 ^ m - 1" "orbit m p i = a"
    using orbit_surj [OF m prim a] by blast
  have "log_table gf ! unat a = Some (of_nat i)"
    using ok i by (auto simp: field_tables_ok_def)
  moreover have "unat a < length (log_table gf)"
    using ok a(2) unat_lt_2p [of m a] m by (simp add: field_tables_ok_def)
  ultimately have "array_get (log_table gf) (unat a) = Inr (of_nat i)"
    by (intro array_get_ok)
  then show ?thesis using i by blast
qed

lemma multiply_total:
  assumes m: "1 \<le> m" "m < 31" and ok: "field_tables_ok m p gf" and prim: "is_primitive_poly m p"
    and a: "a < 2 ^ m" and b: "b < 2 ^ m"
  shows "\<exists>r. multiply gf a b = Inr r \<and> r < 2 ^ m"
proof (cases "a = 0 \<or> b = 0")
  case True
  then show ?thesis using zero_lt_2p [of m] m by (auto simp: multiply_def)
next
  case False
  then have nz: "a \<noteq> 0" "b \<noteq> 0" by simp_all
  obtain i where i: "array_get (log_table gf) (unat a) = Inr (of_nat i)"
    using log_get [OF m ok prim nz(1) a] by blast
  obtain j where j: "array_get (log_table gf) (unat b) = Inr (of_nat j)"
    using log_get [OF m ok prim nz(2) b] by blast
  have gm: "gf_m gf = m" using ok by (simp add: field_tables_ok_def)
  have vp: "valid_poly m p" using prim by (simp add: is_primitive_poly_def)
  let ?k = "unat ((ucast (of_nat i + of_nat j :: Element) :: size_t) mod (field_size m - 1))"
  have "?k < 2 ^ m - 1" using index_lt [of m] m by simp
  then have "array_get (exp_table gf) ?k = Inr (orbit m p ?k)"
    using exp_get [OF ok prim] by blast
  then have "multiply gf a b = Inr (orbit m p ?k)"
    using nz by (simp add: multiply_def i j gm Let_def)
  then show ?thesis using orbit_bound [OF m vp] by blast
qed

lemma divide_total:
  assumes m: "1 \<le> m" "m < 31" and ok: "field_tables_ok m p gf" and prim: "is_primitive_poly m p"
    and a: "a < 2 ^ m" and b: "b < 2 ^ m" "b \<noteq> 0"
  shows "\<exists>r. divide_gf gf a b = Inr r \<and> r < 2 ^ m"
proof (cases "a = 0")
  case True
  then show ?thesis using zero_lt_2p [of m] m b by (auto simp: divide_gf_def)
next
  case False
  obtain i where i: "array_get (log_table gf) (unat a) = Inr (of_nat i)"
    using log_get [OF m ok prim False a] by blast
  obtain j where j: "array_get (log_table gf) (unat b) = Inr (of_nat j)"
    using log_get [OF m ok prim b(2) b(1)] by blast
  have gm: "gf_m gf = m" using ok by (simp add: field_tables_ok_def)
  have vp: "valid_poly m p" using prim by (simp add: is_primitive_poly_def)
  let ?k = "unat (((ucast (of_nat i - of_nat j :: Element) :: size_t) + field_size m - 1)
                    mod (field_size m - 1))"
  have "?k < 2 ^ m - 1" using index_lt [of m] m by simp
  then have "array_get (exp_table gf) ?k = Inr (orbit m p ?k)"
    using exp_get [OF ok prim] by blast
  then have "divide_gf gf a b = Inr (orbit m p ?k)"
    using False b by (simp add: divide_gf_def i j gm Let_def)
  then show ?thesis using orbit_bound [OF m vp] by blast
qed

lemma power_total:
  assumes m: "1 \<le> m" "m < 31" and ok: "field_tables_ok m p gf" and prim: "is_primitive_poly m p"
    and a: "a < 2 ^ m"
  shows "\<exists>r. power_gf gf a e = Inr r \<and> r < 2 ^ m"
proof (cases "a = 0")
  case True
  then show ?thesis using zero_lt_2p [of m] one_lt_2p [of m] m by (auto simp: power_gf_def)
next
  case False
  obtain i where i: "array_get (log_table gf) (unat a) = Inr (of_nat i)"
    using log_get [OF m ok prim False a] by blast
  have gm: "gf_m gf = m" using ok by (simp add: field_tables_ok_def)
  have vp: "valid_poly m p" using prim by (simp add: is_primitive_poly_def)
  let ?k = "unat (((ucast (of_nat i :: Element) :: size_t) * e) mod (field_size m - 1))"
  have "?k < 2 ^ m - 1" using index_lt [of m] m by simp
  then have "array_get (exp_table gf) ?k = Inr (orbit m p ?k)"
    using exp_get [OF ok prim] by blast
  then have "power_gf gf a e = Inr (orbit m p ?k)"
    using False by (simp add: power_gf_def i gm Let_def)
  then show ?thesis using orbit_bound [OF m vp] by blast
qed

lemma inverse_total:
  assumes m: "1 \<le> m" "m < 31" and ok: "field_tables_ok m p gf" and prim: "is_primitive_poly m p"
    and a: "a < 2 ^ m" "a \<noteq> 0"
  shows "\<exists>r. inverse_gf gf a = Inr r \<and> r < 2 ^ m"
proof -
  obtain i where i: "array_get (log_table gf) (unat a) = Inr (of_nat i)"
    using log_get [OF m ok prim a(2) a(1)] by blast
  have gm: "gf_m gf = m" using ok by (simp add: field_tables_ok_def)
  have vp: "valid_poly m p" using prim by (simp add: is_primitive_poly_def)
  let ?k = "unat ((field_size m - 1 - (ucast (of_nat i :: Element) :: size_t)) mod (field_size m - 1))"
  have "?k < 2 ^ m - 1" using index_lt [of m] m by simp
  then have "array_get (exp_table gf) ?k = Inr (orbit m p ?k)"
    using exp_get [OF ok prim] by blast
  then have "inverse_gf gf a = Inr (orbit m p ?k)"
    using a by (simp add: inverse_gf_def i gm Let_def)
  then show ?thesis using orbit_bound [OF m vp] by blast
qed

lemma iterate_shift_funpow: "iterate_shift m p k v = (shift_reduce m p ^^ k) v"
  by (induction k arbitrary: v) (simp_all add: funpow_swap1)

lemma orbit_code [code]: "orbit m p i = iterate_shift m p i 1"
  by (simp add: orbit_def iterate_shift_funpow)

lemma walk_Some:
  "walk m p k v = Some u \<Longrightarrow>
     (shift_reduce m p ^^ k) v = u \<and> (\<forall>i \<in> {1..k}. (shift_reduce m p ^^ i) v \<noteq> 1)"
proof (induction k arbitrary: v)
  case 0
  then show ?case by simp
next
  case (Suc k)
  let ?v' = "shift_reduce m p v"
  from Suc.prems have ne: "?v' \<noteq> 1" and w: "walk m p k ?v' = Some u"
    by (auto simp: Let_def split: if_splits)
  from Suc.IH [OF w] have ih: "(shift_reduce m p ^^ k) ?v' = u"
    "\<forall>i \<in> {1..k}. (shift_reduce m p ^^ i) ?v' \<noteq> 1" by simp_all
  have "(shift_reduce m p ^^ i) v \<noteq> 1" if i: "i \<in> {1..Suc k}" for i
  proof (cases i)
    case 0
    then show ?thesis using i by simp
  next
    case (Suc j)
    show ?thesis
    proof (cases "j = 0")
      case True
      then show ?thesis using ne Suc by simp
    next
      case False
      then have "j \<in> {1..k}" using i Suc by simp
      then show ?thesis using ih(2) Suc by (simp add: funpow_swap1)
    qed
  qed
  then show ?case using ih(1) by (simp add: funpow_swap1)
qed

lemma is_primitive_poly_by_walk:
  assumes "1 \<le> m" "valid_poly m p" "walk m p (2 ^ m - 2) 1 = Some u" "shift_reduce m p u = 1"
  shows "is_primitive_poly m p"
proof -
  have N: "2 ^ m - 1 = Suc (2 ^ m - 2)" using pow2_gt1 [OF assms(1)] by simp
  from walk_Some [OF assms(3)]
  have w: "orbit m p (2 ^ m - 2) = u" "\<forall>i \<in> {1..2 ^ m - 2}. orbit m p i \<noteq> 1"
    by (simp_all add: orbit_def)
  have "orbit m p (2 ^ m - 1) = 1"
    unfolding N orbit_Suc w(1) by (rule assms(4))
  moreover have "\<forall>i \<in> {1..<2 ^ m - 1}. orbit m p i \<noteq> 1"
    using w(2) unfolding N by auto
  ultimately show ?thesis using assms(2) by (simp add: is_primitive_poly_def)
qed


lemma primitive_0x0B: "is_primitive_poly 3 0x0B"
proof -
  have "valid_poly 3 0x0B" by code_simp
  moreover have "walk 3 0x0B (2 ^ 3 - 2) 1 = Some 5" by code_simp
  moreover have "shift_reduce 3 0x0B 5 = 1" by code_simp
  ultimately show ?thesis by (intro is_primitive_poly_by_walk) simp_all
qed

text \<open>Evaluation of the orbit by rewriting, one step per numeral predecessor.\<close>

lemma walk_numeral:
  "walk m p (numeral k) v =
     (let v' = shift_reduce m p v in if v' = 1 then None else walk m p (pred_numeral k) v')"
  by (simp add: numeral_eq_Suc)

lemma iterate_shift_numeral:
  "iterate_shift m p (numeral k) v = iterate_shift m p (pred_numeral k) (shift_reduce m p v)"
  by (simp add: numeral_eq_Suc)

lemma shift_reduce_numeral:
  "numeral m < (32 :: nat) \<Longrightarrow>
   shift_reduce (numeral m) p v =
     (if bit v (pred_numeral m) then push_bit 1 v XOR p else push_bit 1 v)"
  using shift_reduce_alt [of "numeral m" p v] by (simp add: numeral_eq_Suc)

lemmas orbit_eval = orbit_code iterate_shift_numeral shift_reduce_numeral

lemmas walk_eval = walk_numeral shift_reduce_numeral Let_def

lemma primitive_by_walk_numeral:
  assumes "valid_poly (numeral m) p" "walk (numeral m) p (2 ^ numeral m - 2) 1 = Some u"
    "shift_reduce (numeral m) p u = 1"
  shows "is_primitive_poly (numeral m) p"
  using assms by (intro is_primitive_poly_by_walk) simp_all

section \<open>Ring laws and polynomial evaluation\<close>

lemma in_range_take_bit: "m < 32 \<Longrightarrow> ((a :: Element) < 2 ^ m) = (take_bit m a = a)"
  using mask_eq_iff_w2p [of m a] by (simp add: take_bit_eq_mask word_size)

lemma take_bit_in_range: "m < 32 \<Longrightarrow> take_bit m (a :: Element) < 2 ^ m"
  by (simp add: in_range_take_bit)

lemma good_polyD:
  assumes "good_poly m p"
  shows "1 \<le> m" "m < 31" "m < 32" "is_primitive_poly m p" "valid_poly m p"
    "orbit m p (2 ^ m - 1) = 1" "\<forall>i \<in> {1..<2 ^ m - 1}. orbit m p i \<noteq> 1" "(0::nat) < 2 ^ m - 1"
  using assms pow2_gt1 [of m] by (simp_all add: good_poly_def is_primitive_poly_def)

lemma dlog_orbit:
  assumes g: "good_poly m p"
  shows "dlog m p (orbit m p n) = n mod (2 ^ m - 1)"
proof -
  let ?N = "2 ^ m - 1 :: nat"
  note d = good_polyD [OF g]
  have eq: "orbit m p (n mod ?N) = orbit m p n" by (rule orbit_mod [OF d(6)])
  have lt: "n mod ?N < ?N" using d(8) by simp
  show ?thesis
    unfolding dlog_def
  proof (rule Least_equality)
    show "orbit m p (n mod ?N) = orbit m p n" by (rule eq)
  next
    fix y assume y: "orbit m p y = orbit m p n"
    show "n mod ?N \<le> y"
    proof (rule ccontr)
      assume "\<not> n mod ?N \<le> y"
      then have "y < n mod ?N" by simp
      then have "y < ?N" using lt by simp
      then have "y = n mod ?N"
        using orbit_inj [OF d(6,7), of y "n mod ?N"] lt y eq by simp
      then show False using \<open>y < n mod ?N\<close> by simp
    qed
  qed
qed

lemma dlog_props:
  assumes g: "good_poly m p" and a: "a \<noteq> 0" "a < 2 ^ m"
  shows "dlog m p a < 2 ^ m - 1" "orbit m p (dlog m p a) = a"
proof -
  note d = good_polyD [OF g]
  obtain i where i: "i < 2 ^ m - 1" "orbit m p i = a"
    using orbit_surj [OF d(1,2,4) a] by blast
  have "dlog m p a = i mod (2 ^ m - 1)" using dlog_orbit [OF g, of i] i(2) by simp
  then have "dlog m p a = i" using i(1) by simp
  then show "dlog m p a < 2 ^ m - 1" "orbit m p (dlog m p a) = a" using i by simp_all
qed

lemma orbit_mod_add:
  assumes g: "good_poly m p"
  shows "orbit m p (x mod (2 ^ m - 1) + y) = orbit m p (x + y)"
proof -
  note d = good_polyD [OF g]
  have "orbit m p (x mod (2 ^ m - 1) + y) = orbit m p ((x mod (2 ^ m - 1) + y) mod (2 ^ m - 1))"
    by (simp only: orbit_mod [OF d(6)])
  also have "\<dots> = orbit m p ((x + y) mod (2 ^ m - 1))" by (simp only: mod_add_left_eq)
  also have "\<dots> = orbit m p (x + y)" by (simp only: orbit_mod [OF d(6)])
  finally show ?thesis .
qed

lemma gmul_range:
  assumes g: "good_poly m p"
  shows "gmul m p a b < 2 ^ m"
  using good_polyD [OF g] orbit_bound [of m p] zero_lt_2p [of m]
  by (simp add: gmul_def)

lemma gmul_take_bit:
  assumes g: "good_poly m p"
  shows "take_bit m (gmul m p a b) = gmul m p a b"
  using gmul_range [OF g, of a b] good_polyD(3) [OF g] by (simp add: in_range_take_bit)

lemma gmul_commute: "gmul m p a b = gmul m p b a"
  by (auto simp: gmul_def add.commute)

lemma gmul_zero [simp]: "gmul m p 0 b = 0" "gmul m p a 0 = 0"
  by (simp_all add: gmul_def)

lemma gmul_eq_0_iff:
  assumes g: "good_poly m p"
  shows "gmul m p a b = 0 \<longleftrightarrow> take_bit m a = 0 \<or> take_bit m b = 0"
  using good_polyD [OF g] orbit_ne_0 [of m p "2 ^ m - 1"]
  by (simp add: gmul_def)

lemma funpow_shift_reduce_xor:
  assumes "1 \<le> m" "m < 32"
  shows "(shift_reduce m p ^^ k) (u XOR v) = (shift_reduce m p ^^ k) u XOR (shift_reduce m p ^^ k) v"
  by (induction k) (simp_all add: shift_reduce_xor [OF assms])

lemma gmul_as_funpow:
  assumes g: "good_poly m p" and a: "take_bit m a \<noteq> 0"
  shows "gmul m p a b = (shift_reduce m p ^^ dlog m p (take_bit m a)) (take_bit m b)"
proof (cases "take_bit m b = 0")
  case True
  then show ?thesis
    using good_polyD [OF g] by (simp add: gmul_def funpow_shift_reduce_0)
next
  case False
  note d = good_polyD [OF g]
  have "orbit m p (dlog m p (take_bit m b)) = take_bit m b"
    using dlog_props(2) [OF g False] take_bit_in_range [OF d(3)] by simp
  then have "(shift_reduce m p ^^ dlog m p (take_bit m a)) (take_bit m b)
      = orbit m p (dlog m p (take_bit m a) + dlog m p (take_bit m b))"
    by (simp add: orbit_add)
  then show ?thesis using a False by (simp add: gmul_def)
qed

lemma gmul_xor_right:
  assumes g: "good_poly m p"
  shows "gmul m p a (b XOR c) = gmul m p a b XOR gmul m p a c"
proof (cases "take_bit m a = 0")
  case True
  then show ?thesis by (simp add: gmul_def)
next
  case False
  note d = good_polyD [OF g]
  show ?thesis
    by (simp add: gmul_as_funpow [OF g False] take_bit_xor
        funpow_shift_reduce_xor [OF d(1,3)])
qed

lemma gmul_xor_left:
  assumes g: "good_poly m p"
  shows "gmul m p (a XOR b) c = gmul m p a c XOR gmul m p b c"
  using gmul_xor_right [OF g, of c a b] by (simp add: gmul_commute)

lemma gmul_assoc:
  assumes g: "good_poly m p"
  shows "gmul m p (gmul m p a b) c = gmul m p a (gmul m p b c)"
proof (cases "take_bit m a = 0 \<or> take_bit m b = 0 \<or> take_bit m c = 0")
  case True
  then show ?thesis
    using gmul_eq_0_iff [OF g] gmul_take_bit [OF g] by (auto simp: gmul_def)
next
  case False
  then have nz: "take_bit m a \<noteq> 0" "take_bit m b \<noteq> 0" "take_bit m c \<noteq> 0" by simp_all
  note d = good_polyD [OF g]
  let ?i = "dlog m p (take_bit m a)" and ?j = "dlog m p (take_bit m b)"
    and ?k = "dlog m p (take_bit m c)"
  have ab: "gmul m p a b = orbit m p (?i + ?j)" using nz by (simp add: gmul_def)
  have bc: "gmul m p b c = orbit m p (?j + ?k)" using nz by (simp add: gmul_def)
  have tab: "take_bit m (gmul m p a b) = orbit m p (?i + ?j)"
    using gmul_take_bit [OF g, of a b] ab by simp
  have tbc: "take_bit m (gmul m p b c) = orbit m p (?j + ?k)"
    using gmul_take_bit [OF g, of b c] bc by simp
  have ab0: "take_bit m (gmul m p a b) \<noteq> 0"
    using gmul_eq_0_iff [OF g, of a b] nz by (simp add: gmul_take_bit [OF g])
  have bc0: "take_bit m (gmul m p b c) \<noteq> 0"
    using gmul_eq_0_iff [OF g, of b c] nz by (simp add: gmul_take_bit [OF g])
  have "gmul m p (gmul m p a b) c = orbit m p (dlog m p (take_bit m (gmul m p a b)) + ?k)"
    unfolding gmul_def [of m p "gmul m p a b" c] using ab0 nz(3) by simp
  also have "\<dots> = orbit m p (dlog m p (orbit m p (?i + ?j)) + ?k)"
    by (simp only: tab)
  also have "\<dots> = orbit m p ((?i + ?j) + ?k)"
    by (simp only: dlog_orbit [OF g] orbit_mod_add [OF g])
  finally have l: "gmul m p (gmul m p a b) c = orbit m p (?i + ?j + ?k)" .
  have "gmul m p a (gmul m p b c) = orbit m p (?i + dlog m p (take_bit m (gmul m p b c)))"
    unfolding gmul_def [of m p a "gmul m p b c"] using bc0 nz(1) by simp
  also have "\<dots> = orbit m p (?i + dlog m p (orbit m p (?j + ?k)))"
    by (simp only: tbc)
  also have "\<dots> = orbit m p ((?j + ?k) mod (2 ^ m - 1) + ?i)"
    by (simp only: dlog_orbit [OF g] add.commute)
  also have "\<dots> = orbit m p ((?j + ?k) + ?i)"
    by (simp only: orbit_mod_add [OF g])
  finally have r: "gmul m p a (gmul m p b c) = orbit m p (?i + ?j + ?k)"
    by (simp add: add.commute add.left_commute)
  show ?thesis using l r by simp
qed

lemma dlog_1: "dlog m p 1 = 0"
  unfolding dlog_def by (rule Least_equality) simp_all

lemma gmul_one_right:
  assumes g: "good_poly m p"
  shows "gmul m p a 1 = take_bit m a"
proof (cases "take_bit m a = 0")
  case True
  then show ?thesis by (simp add: gmul_def)
next
  case False
  note d = good_polyD [OF g]
  have one: "take_bit m (1 :: Element) = 1"
    using one_lt_2p [OF d(1,3)] d(3) by (simp add: in_range_take_bit)
  have "orbit m p (dlog m p (take_bit m a)) = take_bit m a"
    using dlog_props(2) [OF g False] take_bit_in_range [OF d(3)] by simp
  then show ?thesis using False by (simp add: gmul_def one dlog_1)
qed

lemma xor_range:
  assumes "m < 32" "(a :: Element) < 2 ^ m" "b < 2 ^ m"
  shows "a XOR b < 2 ^ m"
proof -
  have "take_bit m (a XOR b) = a XOR b"
    using assms by (simp add: take_bit_xor in_range_take_bit)
  then show ?thesis using assms(1) by (simp add: in_range_take_bit)
qed

lemma unat_of_nat_sum:
  assumes "i < 2 ^ 31" "j < 2 ^ 31"
  shows "unat (of_nat i + of_nat j :: 32 word) = i + j"
proof -
  have "i + j < 2 ^ 32" using assms by simp
  then have "unat (of_nat (i + j) :: 32 word) = i + j" by (rule unat_of_nat_32)
  then show ?thesis by simp
qed

lemma lt_N_lt_2p31:
  assumes "m < 31" "(i :: nat) < 2 ^ m - 1"
  shows "i < 2 ^ 31"
proof -
  have "(2::nat) ^ m < 2 ^ 31" using assms(1) power_strict_increasing [of m 31 "2::nat"] by simp
  then show ?thesis using assms(2) by simp
qed

lemma multiply_eq:
  assumes gf: "good_field m p gf" and a: "a < 2 ^ m" and b: "b < 2 ^ m"
  shows "multiply gf a b = Inr (gmul m p a b)"
proof -
  have g: "good_poly m p" and ok: "field_tables_ok m p gf"
    using gf by (simp_all add: good_field_def)
  note d = good_polyD [OF g]
  have ta: "take_bit m a = a" and tb: "take_bit m b = b"
    using a b d(3) by (simp_all add: in_range_take_bit)
  show ?thesis
  proof (cases "a = 0 \<or> b = 0")
    case True
    then show ?thesis by (auto simp: multiply_def gmul_def ta tb)
  next
    case False
    then have nz: "a \<noteq> 0" "b \<noteq> 0" by simp_all
    obtain i where i: "i < 2 ^ m - 1" "a = orbit m p i"
      "array_get (log_table gf) (unat a) = Inr (of_nat i)"
      using log_get [OF d(1,2) ok d(4) nz(1) a] by blast
    obtain j where j: "j < 2 ^ m - 1" "b = orbit m p j"
      "array_get (log_table gf) (unat b) = Inr (of_nat j)"
      using log_get [OF d(1,2) ok d(4) nz(2) b] by blast
    have gm: "gf_m gf = m" using ok by (simp add: field_tables_ok_def)
    let ?k = "unat ((ucast (of_nat i + of_nat j :: Element) :: size_t) mod (field_size m - 1))"
    have k: "?k = (i + j) mod (2 ^ m - 1)"
      using unat_of_nat_sum [OF lt_N_lt_2p31 [OF d(2) i(1)] lt_N_lt_2p31 [OF d(2) j(1)]]
      by (simp add: unat_mod unat_field_size_m1 [OF d(3)] unat_ucast_32_64)
    have "?k < 2 ^ m - 1" using index_lt [OF d(1,3)] by simp
    then have "array_get (exp_table gf) ?k = Inr (orbit m p ?k)"
      using exp_get [OF ok d(4)] by blast
    then have m1: "multiply gf a b = Inr (orbit m p ?k)"
      using nz by (simp add: multiply_def i(3) j(3) gm Let_def)
    have "orbit m p ?k = orbit m p (i + j)"
      unfolding k by (rule orbit_mod [OF d(6)])
    moreover have "dlog m p a = i" "dlog m p b = j"
      using dlog_orbit [OF g, of i] dlog_orbit [OF g, of j] i(1,2) j(1,2) by simp_all
    ultimately have "orbit m p ?k = gmul m p a b"
      using nz by (simp add: gmul_def ta tb)
    then show ?thesis using m1 by simp
  qed
qed

lemma peval_Nil [simp]: "peval m p x [] = 0"
  by (simp add: peval_def)

lemma peval_Cons [simp]: "peval m p x (c # cs) = c XOR gmul m p (peval m p x cs) x"
  by (simp add: peval_def)

lemma els_simps [simp]:
  "els m [] = True" "els m (c # cs) = (c < 2 ^ m \<and> els m cs)"
  "els m (xs @ ys) = (els m xs \<and> els m ys)" "els m (rev xs) = els m xs"
  by (auto simp: els_def)

lemma peval_range:
  assumes g: "good_poly m p" and cs: "els m cs"
  shows "peval m p x cs < 2 ^ m"
  using cs
proof (induction cs)
  case Nil
  then show ?case using zero_lt_2p [of m] good_polyD(3) [OF g] by simp
next
  case (Cons c cs)
  then show ?case
    using xor_range [OF good_polyD(3) [OF g], of c "gmul m p (peval m p x cs) x"]
      gmul_range [OF g] by simp
qed

lemma horner_eq:
  assumes gf: "good_field m p gf" and x: "x < 2 ^ m"
  shows "els m hs \<Longrightarrow> r < 2 ^ m \<Longrightarrow>
           horner gf x hs r = Inr (foldl (\<lambda>r c. gmul m p r x XOR c) r hs)"
proof (induction hs arbitrary: r)
  case Nil
  then show ?case by simp
next
  case (Cons c hs)
  have g: "good_poly m p" using gf by (simp add: good_field_def)
  have "gmul m p r x XOR c < 2 ^ m"
    using xor_range [OF good_polyD(3) [OF g] gmul_range [OF g]] Cons.prems(1) by simp
  then show ?case
    using Cons multiply_eq [OF gf Cons.prems(2) x] by (simp add: add_def)
qed

lemma foldl_horner_peval:
  assumes "cs \<noteq> []"
  shows "foldl (\<lambda>r c. gmul m p r x XOR c) (last cs) (rev (butlast cs)) = peval m p x cs"
  using assms
proof (induction cs)
  case Nil
  then show ?case by simp
next
  case (Cons c cs)
  show ?case
  proof (cases "cs = []")
    case True
    then show ?thesis by simp
  next
    case False
    then show ?thesis using Cons.IH by (simp add: xor.commute)
  qed
qed

lemma evaluate_eq:
  assumes gf: "good_field m p gf" and x: "x < 2 ^ m" and cs: "els m cs"
  shows "evaluate gf cs x = Inr (peval m p x cs)"
proof (cases "cs = []")
  case True
  then show ?thesis by (simp add: evaluate_def)
next
  case False
  have "els m (rev (butlast cs))" "last cs < 2 ^ m"
    using cs False by (auto simp: els_def dest: in_set_butlastD)
  then have "horner gf x (rev (butlast cs)) (last cs)
      = Inr (foldl (\<lambda>r c. gmul m p r x XOR c) (last cs) (rev (butlast cs)))"
    by (rule horner_eq [OF gf x])
  then show ?thesis using False by (simp add: evaluate_def foldl_horner_peval)
qed

lemma xpow_range:
  assumes g: "good_poly m p"
  shows "xpow m p x k < 2 ^ m"
  using good_polyD [OF g] one_lt_2p [of m] gmul_range [OF g] by (cases k) simp_all

lemma gmul_one_right_range:
  assumes g: "good_poly m p" and a: "a < 2 ^ m"
  shows "gmul m p a 1 = a"
  using gmul_one_right [OF g, of a] a good_polyD(3) [OF g] by (simp add: in_range_take_bit)

lemma xpow_add:
  assumes g: "good_poly m p"
  shows "xpow m p x (i + j) = gmul m p (xpow m p x i) (xpow m p x j)"
proof (induction j)
  case 0
  show ?case using gmul_one_right_range [OF g xpow_range [OF g]] by simp
next
  case (Suc j)
  then show ?case by (simp add: gmul_assoc [OF g])
qed

lemma peval_snoc:
  assumes g: "good_poly m p" and c: "c < 2 ^ m"
  shows "peval m p x (cs @ [c]) = peval m p x cs XOR gmul m p c (xpow m p x (length cs))"
proof (induction cs)
  case Nil
  show ?case using gmul_one_right_range [OF g c] by simp
next
  case (Cons a cs)
  have "gmul m p (gmul m p c (xpow m p x (length cs))) x
      = gmul m p c (xpow m p x (Suc (length cs)))"
    by (simp add: gmul_assoc [OF g])
  then show ?case
    using Cons by (simp add: gmul_xor_left [OF g] xor.assoc)
qed

lemma peval_update:
  assumes g: "good_poly m p" and c: "c < 2 ^ m"
  shows "k < length res \<Longrightarrow>
     peval m p x (res[k := res ! k XOR c]) = peval m p x res XOR gmul m p c (xpow m p x k)"
proof (induction res arbitrary: k)
  case Nil
  then show ?case by simp
next
  case (Cons r rs)
  show ?case
  proof (cases k)
    case 0
    have "(r XOR c) XOR gmul m p (peval m p x rs) x = (r XOR gmul m p (peval m p x rs) x) XOR c"
      by (simp add: xor.assoc xor.commute)
    then show ?thesis using 0 gmul_one_right_range [OF g c] by simp
  next
    case (Suc k')
    then have k': "k' < length rs" using Cons.prems by simp
    have "gmul m p (gmul m p c (xpow m p x k')) x = gmul m p c (xpow m p x (Suc k'))"
      by (simp add: gmul_assoc [OF g])
    then show ?thesis
      using Suc Cons.IH [OF k'] by (simp add: gmul_xor_left [OF g] xor.assoc)
  qed
qed

lemma peval_replicate_0 [simp]: "peval m p x (replicate n 0) = 0"
  by (induction n) simp_all

lemma is_zero_peval: "is_zero cs \<Longrightarrow> peval m p x cs = 0"
  by (induction cs) (simp_all add: is_zero_def)

lemma peval_snoc_0: "peval m p x (cs @ [0]) = peval m p x cs"
  by (induction cs) simp_all

lemma strip_snoc:
  "rev (dropWhile P (rev (cs @ [c]))) = (if P c then rev (dropWhile P (rev cs)) else cs @ [c])"
  by simp

lemma peval_strip: "peval m p x (rev (dropWhile (\<lambda>c. c = 0) (rev cs))) = peval m p x cs"
proof (induction cs rule: rev_induct)
  case Nil
  then show ?case by simp
next
  case (snoc c cs)
  then show ?case by (simp add: peval_snoc_0 del: peval_Cons)
qed

lemma peval_normalize [simp]: "peval m p x (normalize cs) = peval m p x cs"
proof -
  have "peval m p x cs = 0" if "rev (dropWhile (\<lambda>c. c = 0) (rev cs)) = []"
    using peval_strip [of m p x cs] that by simp
  then show ?thesis by (auto simp: normalize_def Let_def peval_strip)
qed

lemma els_normalize:
  assumes "m < 32" "els m cs"
  shows "els m (normalize cs)"
proof -
  have "set (rev (dropWhile (\<lambda>c. c = 0) (rev cs))) \<subseteq> set cs"
    using set_dropWhileD by fastforce
  then show ?thesis
    using assms zero_lt_2p [of m] by (auto simp: normalize_def Let_def els_def)
qed

lemma peval_map_add:
  assumes g: "good_poly m p"
  shows "peval m p x (map (\<lambda>i. add (if i < length a then a ! i else 0)
                                       (if i < length b then b ! i else 0)) [0..<n])
         = peval m p x (take n a) XOR peval m p x (take n b)"
proof (induction n arbitrary: a b)
  case 0
  show ?case by simp
next
  case (Suc n)
  let ?f = "\<lambda>a b i. add (if i < length a then a ! i else 0) (if i < length b then b ! i else 0)"
  have shift: "map (\<lambda>i. ?f a b (Suc i)) [0..<n] = map (?f (tl a) (tl b)) [0..<n]"
    by (cases a; cases b) (simp_all add: add_def)
  have "map (?f a b) [0..<Suc n] = ?f a b 0 # map (\<lambda>i. ?f a b (Suc i)) [0..<n]"
    by (simp add: map_upt_Suc del: upt_Suc)
  then have "peval m p x (map (?f a b) [0..<Suc n])
      = ?f a b 0 XOR gmul m p (peval m p x (take n (tl a)) XOR peval m p x (take n (tl b))) x"
    using Suc.IH [of "tl a" "tl b"] by (simp add: shift del: upt_Suc)
  also have "\<dots> = peval m p x (take (Suc n) a) XOR peval m p x (take (Suc n) b)"
    by (cases a; cases b) (simp_all add: add_def gmul_xor_left [OF g] xor.assoc xor.left_commute)
  finally show ?case .
qed

lemma peval_poly_add:
  assumes g: "good_poly m p"
  shows "peval m p x (poly_add a b) = peval m p x a XOR peval m p x b"
  using peval_map_add [OF g, of x a b "max (length a) (length b)"]
  by (simp add: poly_add_def)

lemma els_poly_add:
  assumes "m < 32" "els m a" "els m b"
  shows "els m (poly_add a b)"
proof -
  have "els m (map (\<lambda>i. add (if i < length a then a ! i else 0)
                             (if i < length b then b ! i else 0))
                   [0..<max (length a) (length b)])"
    using assms xor_range [OF assms(1)] zero_lt_2p [OF assms(1)]
    by (auto simp: els_def add_def)
  then show ?thesis unfolding poly_add_def by (rule els_normalize [OF assms(1)])
qed

lemma gmul_product_split:
  assumes g: "good_poly m p"
  shows "gmul m p (gmul m p a (xpow m p x i)) (gmul m p b (xpow m p x j))
       = gmul m p (gmul m p a b) (xpow m p x (i + j))"
proof -
  let ?X = "xpow m p x i" and ?Y = "xpow m p x j"
  have "gmul m p (gmul m p a ?X) (gmul m p b ?Y) = gmul m p a (gmul m p ?X (gmul m p b ?Y))"
    by (rule gmul_assoc [OF g])
  also have "gmul m p ?X (gmul m p b ?Y) = gmul m p (gmul m p ?X b) ?Y"
    by (rule gmul_assoc [OF g, symmetric])
  also have "gmul m p ?X b = gmul m p b ?X" by (rule gmul_commute)
  also have "gmul m p (gmul m p b ?X) ?Y = gmul m p b (gmul m p ?X ?Y)"
    by (rule gmul_assoc [OF g])
  also have "gmul m p ?X ?Y = xpow m p x (i + j)" by (rule xpow_add [OF g, symmetric])
  also have "gmul m p a (gmul m p b (xpow m p x (i + j)))
      = gmul m p (gmul m p a b) (xpow m p x (i + j))"
    by (rule gmul_assoc [OF g, symmetric])
  finally show ?thesis .
qed

lemma els_nth: "els m cs \<Longrightarrow> i < length cs \<Longrightarrow> cs ! i < 2 ^ m"
  by (simp add: els_def)

lemma els_update: "els m cs \<Longrightarrow> c < 2 ^ m \<Longrightarrow> els m (cs[k := c])"
  by (auto simp: els_def dest: set_update_subset_insert [THEN subsetD])

lemma poly_mul_inner:
  assumes gf: "good_field m p gf" and a: "els m a" and b: "els m b"
    and i: "i < length a"
    and res: "length res = length a + length b - 1" "els m res"
  shows "\<exists>res'. for_loop 0 (length b)
           (\<lambda>j result. then_do (multiply gf (a ! i) (b ! j))
              (\<lambda>product. Inr (result[i + j := add (result ! (i + j)) product])))
           res = Inr res'
         \<and> length res' = length res \<and> els m res'
         \<and> peval m p x res'
             = peval m p x res XOR gmul m p (gmul m p (a ! i) (xpow m p x i)) (peval m p x b)"
proof -
  have g: "good_poly m p" using gf by (simp add: good_field_def)
  note d = good_polyD [OF g]
  let ?A = "gmul m p (a ! i) (xpow m p x i)"
  define I where "I = (\<lambda>j r. length r = length res \<and> els m r \<and>
     peval m p x r = peval m p x res XOR gmul m p ?A (peval m p x (take j b)))"
  let ?body = "\<lambda>j result. then_do (multiply gf (a ! i) (b ! j))
              (\<lambda>product. Inr (result[i + j := add (result ! (i + j)) product]))"
  have init: "I 0 res" by (simp add: I_def res(2))
  have step: "\<exists>r'. ?body j r = Inr r' \<and> I (Suc j) r'" if j: "j < length b" and inv: "I j r" for j r
  proof -
    have len: "length r = length res" and er: "els m r"
      and pv: "peval m p x r = peval m p x res XOR gmul m p ?A (peval m p x (take j b))"
      using inv by (simp_all add: I_def)
    have ai: "a ! i < 2 ^ m" and bj: "b ! j < 2 ^ m"
      using els_nth [OF a i] els_nth [OF b j] by simp_all
    have mul: "multiply gf (a ! i) (b ! j) = Inr (gmul m p (a ! i) (b ! j))"
      by (rule multiply_eq [OF gf ai bj])
    let ?c = "gmul m p (a ! i) (b ! j)"
    have c: "?c < 2 ^ m" by (rule gmul_range [OF g])
    have k: "i + j < length r" using i j len res(1) by simp
    let ?r' = "r[i + j := r ! (i + j) XOR ?c]"
    have body: "?body j r = Inr ?r'" by (simp add: mul add_def)
    have e': "els m ?r'"
      using els_update [OF er xor_range [OF d(3) els_nth [OF er k] c]] .
    have "peval m p x ?r' = peval m p x r XOR gmul m p ?c (xpow m p x (i + j))"
      by (rule peval_update [OF g c k])
    also have "gmul m p ?c (xpow m p x (i + j)) = gmul m p ?A (gmul m p (b ! j) (xpow m p x j))"
      by (rule gmul_product_split [OF g, symmetric])
    finally have "peval m p x ?r'
        = peval m p x res XOR gmul m p ?A (peval m p x (take j b) XOR gmul m p (b ! j) (xpow m p x j))"
      by (simp add: pv gmul_xor_right [OF g] xor.assoc)
    moreover have "peval m p x (take (Suc j) b)
        = peval m p x (take j b) XOR gmul m p (b ! j) (xpow m p x j)"
      using peval_snoc [OF g bj, of x "take j b"] j by (simp add: take_Suc_conv_app_nth)
    ultimately have "I (Suc j) ?r'" using len e' by (simp add: I_def)
    then show ?thesis using body by blast
  qed
  have "\<exists>s'. for_loop 0 (length b) ?body res = Inr s' \<and> I (length b) s'"
    by (rule for_loop_rule [where I = I, OF init _ step]) simp_all
  then show ?thesis by (auto simp: I_def)
qed

lemma poly_mul_loops:
  assumes gf: "good_field m p gf" and a: "els m a" and b: "els m b"
  shows "\<exists>res. for_loop 0 (length a)
           (\<lambda>i. for_loop 0 (length b)
              (\<lambda>j result. then_do (multiply gf (a ! i) (b ! j))
                 (\<lambda>product. Inr (result[i + j := add (result ! (i + j)) product]))))
           (replicate (length a + length b - 1) 0) = Inr res
         \<and> els m res
         \<and> peval m p x res = gmul m p (peval m p x a) (peval m p x b)"
proof -
  have g: "good_poly m p" using gf by (simp add: good_field_def)
  note d = good_polyD [OF g]
  let ?L = "length a + length b - 1"
  define I where "I = (\<lambda>i r. length r = ?L \<and> els m r \<and>
     peval m p x r = gmul m p (peval m p x (take i a)) (peval m p x b))"
  let ?body = "\<lambda>i. for_loop 0 (length b)
              (\<lambda>j result. then_do (multiply gf (a ! i) (b ! j))
                 (\<lambda>product. Inr (result[i + j := add (result ! (i + j)) product])))"
  have init: "I 0 (replicate ?L 0)"
    using zero_lt_2p [OF d(3)] by (simp add: I_def els_def)
  have step: "\<exists>r'. ?body i r = Inr r' \<and> I (Suc i) r'" if i: "i < length a" and inv: "I i r" for i r
  proof -
    have len: "length r = ?L" and er: "els m r"
      and pv: "peval m p x r = gmul m p (peval m p x (take i a)) (peval m p x b)"
      using inv by (simp_all add: I_def)
    obtain r' where r': "?body i r = Inr r'" "length r' = length r" "els m r'"
      "peval m p x r' = peval m p x r
          XOR gmul m p (gmul m p (a ! i) (xpow m p x i)) (peval m p x b)"
      using poly_mul_inner [OF gf a b i len er, of x] by blast
    have "peval m p x (take (Suc i) a)
        = peval m p x (take i a) XOR gmul m p (a ! i) (xpow m p x i)"
      using peval_snoc [OF g els_nth [OF a i], of x "take i a"] i
      by (simp add: take_Suc_conv_app_nth)
    then have "peval m p x r' = gmul m p (peval m p x (take (Suc i) a)) (peval m p x b)"
      by (simp add: r'(4) pv gmul_xor_left [OF g])
    then have "I (Suc i) r'" using r'(2,3) len by (simp add: I_def)
    then show ?thesis using r'(1) by blast
  qed
  have "\<exists>s'. for_loop 0 (length a) ?body (replicate ?L 0) = Inr s' \<and> I (length a) s'"
    by (rule for_loop_rule [where I = I, OF init _ step]) simp_all
  then show ?thesis by (auto simp: I_def)
qed

lemma poly_mul_eq:
  assumes gf: "good_field m p gf" and a: "els m a" and b: "els m b"
  shows "\<exists>r. poly_mul gf a b = Inr r \<and> els m r
           \<and> peval m p x r = gmul m p (peval m p x a) (peval m p x b)"
proof (cases "is_zero a \<or> is_zero b")
  case True
  have g: "good_poly m p" using gf by (simp add: good_field_def)
  have "peval m p x a = 0 \<or> peval m p x b = 0" using True is_zero_peval by blast
  then have "gmul m p (peval m p x a) (peval m p x b) = 0" by auto
  moreover have "els m (normalize [0])"
    using els_normalize [OF good_polyD(3) [OF g], of "[0]"] zero_lt_2p [OF good_polyD(3) [OF g]]
    by simp
  ultimately show ?thesis using True by (simp add: poly_mul_def)
next
  case False
  have g: "good_poly m p" using gf by (simp add: good_field_def)
  obtain res where res: "for_loop 0 (length a)
           (\<lambda>i. for_loop 0 (length b)
              (\<lambda>j result. then_do (multiply gf (a ! i) (b ! j))
                 (\<lambda>product. Inr (result[i + j := add (result ! (i + j)) product]))))
           (replicate (length a + length b - 1) 0) = Inr res"
    "els m res" "peval m p x res = gmul m p (peval m p x a) (peval m p x b)"
    using poly_mul_loops [OF gf a b, of x] by blast
  have "poly_mul gf a b = Inr (normalize res)"
    unfolding poly_mul_def res(1) using False by simp
  then show ?thesis
    using res(2,3) els_normalize [OF good_polyD(3) [OF g]] by simp
qed

section \<open>The Reed-Solomon decoder returns\<close>

lemma two_lt_2p:
  assumes "2 \<le> m" "m < 32"
  shows "(2 :: Element) < 2 ^ m"
proof -
  have "(2::nat) ^ 2 \<le> 2 ^ m" using assms(1) by (intro power_increasing) simp_all
  then have "(2::nat) < 2 ^ m" by simp
  then show ?thesis using unat_lt_2p [OF assms(2), of 2] by simp
qed

lemma good_field_multiply:
  assumes gf: "good_field m p gf" and a: "a < 2 ^ m" and b: "b < 2 ^ m"
  shows "\<exists>r. multiply gf a b = Inr r \<and> r < 2 ^ m"
  using multiply_eq [OF gf a b] gmul_range [of m p a b] gf by (simp add: good_field_def)

lemma good_field_power:
  assumes gf: "good_field m p gf" and a: "a < 2 ^ m"
  shows "\<exists>r. power_gf gf a e = Inr r \<and> r < 2 ^ m"
  using gf power_total [of m p gf a e] a good_polyD [of m p] by (simp add: good_field_def)

lemma good_field_inverse:
  assumes gf: "good_field m p gf" and a: "a < 2 ^ m" "a \<noteq> 0"
  shows "\<exists>r. inverse_gf gf a = Inr r \<and> r < 2 ^ m"
  using gf inverse_total [of m p gf a] a good_polyD [of m p] by (simp add: good_field_def)

lemma good_field_divide:
  assumes gf: "good_field m p gf" and a: "a < 2 ^ m" and b: "b < 2 ^ m" "b \<noteq> 0"
  shows "\<exists>r. divide_gf gf a b = Inr r \<and> r < 2 ^ m"
  using gf divide_total [of m p gf a b] a b good_polyD [of m p] by (simp add: good_field_def)

lemma good_field_evaluate:
  assumes gf: "good_field m p gf" and x: "x < 2 ^ m" and cs: "els m cs"
  shows "\<exists>r. evaluate gf cs x = Inr r \<and> r < 2 ^ m"
  using evaluate_eq [OF gf x cs] peval_range [of m p cs x] cs gf by (simp add: good_field_def)

lemma good_field_m32: "good_field m p gf \<Longrightarrow> m < 32"
  using good_polyD(3) [of m p] by (simp add: good_field_def)

lemma syndrome_inner:
  assumes gf: "good_field m p gf" and rx: "els m received" "n \<le> length received"
    and ap: "alpha_power < 2 ^ m"
  shows "\<exists>s c. for_loop 0 n
           (\<lambda>j (syndrome, current_power).
              then_do (multiply gf (received ! j) current_power) (\<lambda>t.
              then_do (multiply gf current_power alpha_power) (\<lambda>next_power.
              Inr (add syndrome t, next_power))))
           (0, 1) = Inr (s, c) \<and> s < 2 ^ m"
proof -
  have m32: "m < 32" by (rule good_field_m32 [OF gf])
  have m1: "1 \<le> m" using gf good_polyD(1) [of m p] by (simp add: good_field_def)
  define I where "I = (\<lambda>(j :: nat) (s :: Element \<times> Element). fst s < 2 ^ m \<and> snd s < 2 ^ m)"
  let ?body = "\<lambda>j (syndrome, current_power).
              then_do (multiply gf (received ! j) current_power) (\<lambda>t.
              then_do (multiply gf current_power alpha_power) (\<lambda>next_power.
              Inr (add syndrome t, next_power)))"
  have init: "I 0 (0, 1)" using zero_lt_2p [OF m32] one_lt_2p [OF m1 m32] by (simp add: I_def)
  have step: "\<exists>s'. ?body j s = Inr s' \<and> I (Suc j) s'" if j: "j < n" and inv: "I j s" for j s
  proof -
    obtain sy cp where s: "s = (sy, cp)" by (cases s)
    have sy: "sy < 2 ^ m" and cp: "cp < 2 ^ m" using inv by (simp_all add: I_def s)
    have rj: "received ! j < 2 ^ m" using els_nth [OF rx(1)] j rx(2) by simp
    obtain t where t: "multiply gf (received ! j) cp = Inr t" "t < 2 ^ m"
      using good_field_multiply [OF gf rj cp] by blast
    obtain np where np: "multiply gf cp alpha_power = Inr np" "np < 2 ^ m"
      using good_field_multiply [OF gf cp ap] by blast
    have "?body j s = Inr (add sy t, np)" by (simp add: s t np)
    moreover have "I (Suc j) (add sy t, np)"
      using xor_range [OF m32 sy t(2)] np(2) by (simp add: I_def add_def)
    ultimately show ?thesis by blast
  qed
  have "\<exists>s'. for_loop 0 n ?body (0, 1) = Inr s' \<and> I n s'"
    by (rule for_loop_rule [where I = I, OF init _ step]) simp_all
  then show ?thesis by (auto simp: I_def)
qed

lemma calculate_syndromes_total:
  assumes gf: "good_field m p (rs_field rs)" and m2: "2 \<le> m"
    and rx: "els m received" "rs_n rs \<le> length received"
  shows "\<exists>syndromes. calculate_syndromes rs received = Inr syndromes
           \<and> length syndromes = rs_parity_length rs \<and> els m syndromes"
proof -
  have m32: "m < 32" by (rule good_field_m32 [OF gf])
  let ?pl = "rs_parity_length rs"
  define I where "I = (\<lambda>(i :: nat) (s :: Element list). length s = ?pl \<and> els m s)"
  let ?body = "\<lambda>i syndromes.
          then_do (power_gf (rs_field rs) get_primitive (of_nat (i + 1))) (\<lambda>alpha_power.
          then_do (for_loop 0 (rs_n rs)
                     (\<lambda>j (syndrome, current_power).
                        then_do (multiply (rs_field rs) (received ! j) current_power) (\<lambda>t.
                        then_do (multiply (rs_field rs) current_power alpha_power) (\<lambda>next_power.
                        Inr (add syndrome t, next_power))))
                     (0, 1))
            (\<lambda>(syndrome, current_power). Inr (syndromes[i := syndrome])))"
  have init: "I 0 (replicate ?pl 0)" using zero_lt_2p [OF m32] by (simp add: I_def els_def)
  have step: "\<exists>s'. ?body i s = Inr s' \<and> I (Suc i) s'" if i: "i < ?pl" and inv: "I i s" for i s
  proof -
    have len: "length s = ?pl" and es: "els m s" using inv by (simp_all add: I_def)
    obtain ap where ap: "power_gf (rs_field rs) get_primitive (of_nat (i + 1)) = Inr ap" "ap < 2 ^ m"
      using good_field_power [OF gf, of get_primitive] two_lt_2p [OF m2 m32]
      by (auto simp: get_primitive_def)
    obtain sy cp where sc: "for_loop 0 (rs_n rs)
           (\<lambda>j (syndrome, current_power).
              then_do (multiply (rs_field rs) (received ! j) current_power) (\<lambda>t.
              then_do (multiply (rs_field rs) current_power ap) (\<lambda>next_power.
              Inr (add syndrome t, next_power))))
           (0, 1) = Inr (sy, cp)" "sy < 2 ^ m"
      using syndrome_inner [OF gf rx ap(2)] by blast
    have "?body i s = Inr (s[i := sy])" unfolding ap(1) then_do_Inr sc(1) by simp
    moreover have "I (Suc i) (s[i := sy])"
      using len els_update [OF es sc(2)] by (simp add: I_def)
    ultimately show ?thesis by blast
  qed
  have "\<exists>s'. for_loop 0 ?pl ?body (replicate ?pl 0) = Inr s' \<and> I ?pl s'"
    by (rule for_loop_rule [where I = I, OF init _ step]) simp_all
  then show ?thesis by (auto simp: I_def calculate_syndromes_def)
qed

lemma vector_get_ok: "i < length v \<Longrightarrow> vector_get v i = Inr (v ! i)"
  by (simp add: vector_get_def)

lemma discrepancy_total:
  assumes gf: "good_field m p gf" and sy: "els m syndromes" "i < length syndromes"
    and C: "els m C" "L < length C" and L: "L \<le> i"
  shows "\<exists>d. discrepancy gf syndromes C L i = Inr d \<and> d < 2 ^ m"
proof -
  have m32: "m < 32" by (rule good_field_m32 [OF gf])
  define I where "I = (\<lambda>(j :: nat) (d :: Element). 1 \<le> j \<and> d < 2 ^ m)"
  let ?body = "\<lambda>j d. then_do (vector_get C j) (\<lambda>cj.
               if j \<le> i
               then then_do (vector_get syndromes (i - j)) (\<lambda>s.
                    then_do (multiply gf cj s) (\<lambda>t. Inr (add d t)))
               else Inl OutOfBounds)"
  have init: "I 1 (syndromes ! i)" using els_nth [OF sy] by (simp add: I_def)
  have step: "\<exists>d'. ?body j d = Inr d' \<and> I (Suc j) d'" if j: "j < L + 1" and inv: "I j d" for j d
  proof -
    have j1: "1 \<le> j" and d: "d < 2 ^ m" using inv by (simp_all add: I_def)
    have jC: "j < length C" and ji: "j \<le> i" and ij: "i - j < length syndromes"
      using j C(2) L sy(2) by simp_all
    obtain t where t: "multiply gf (C ! j) (syndromes ! (i - j)) = Inr t" "t < 2 ^ m"
      using good_field_multiply [OF gf els_nth [OF C(1) jC] els_nth [OF sy(1) ij]] by blast
    have "?body j d = Inr (add d t)"
      using ji by (simp add: vector_get_ok [OF jC] vector_get_ok [OF ij] t(1))
    moreover have "I (Suc j) (add d t)"
      using xor_range [OF m32 d t(2)] by (simp add: I_def add_def)
    ultimately show ?thesis by blast
  qed
  have "\<exists>d'. for_loop 1 (L + 1) ?body (syndromes ! i) = Inr d' \<and> I (L + 1) d'"
    by (rule for_loop_rule [where I = I, OF init _ step]) simp_all
  then show ?thesis
    unfolding discrepancy_def vector_get_ok [OF sy(2)] then_do_Inr by (auto simp: I_def)
qed

lemma bm_update_total:
  assumes gf: "good_field m p gf" and C: "els m C" "length C = n" and B: "els m B" "length B = n"
    and d: "d_inv < 2 ^ m"
  shows "\<exists>C'. for_loop 0 (n - pos)
           (\<lambda>idx C. then_do (multiply gf d_inv (B ! idx))
              (\<lambda>t. Inr (C[idx + pos := add (C ! (idx + pos)) t])))
           C = Inr C' \<and> els m C' \<and> length C' = n"
proof -
  have m32: "m < 32" by (rule good_field_m32 [OF gf])
  define I where "I = (\<lambda>(idx :: nat) (c :: Element list). els m c \<and> length c = n)"
  let ?body = "\<lambda>idx C. then_do (multiply gf d_inv (B ! idx))
              (\<lambda>t. Inr (C[idx + pos := add (C ! (idx + pos)) t]))"
  have init: "I 0 C" using C by (simp add: I_def)
  have step: "\<exists>c'. ?body idx c = Inr c' \<and> I (Suc idx) c'"
    if idx: "idx < n - pos" and inv: "I idx c" for idx c
  proof -
    have ec: "els m c" and len: "length c = n" using inv by (simp_all add: I_def)
    have ib: "idx < length B" and ic: "idx + pos < length c" using idx B(2) len by simp_all
    obtain t where t: "multiply gf d_inv (B ! idx) = Inr t" "t < 2 ^ m"
      using good_field_multiply [OF gf d els_nth [OF B(1) ib]] by blast
    have "?body idx c = Inr (c[idx + pos := add (c ! (idx + pos)) t])" by (simp add: t(1))
    moreover have "I (Suc idx) (c[idx + pos := add (c ! (idx + pos)) t])"
      using els_update [OF ec xor_range [OF m32 els_nth [OF ec ic] t(2)]] len
      by (simp add: I_def add_def)
    ultimately show ?thesis by blast
  qed
  have "\<exists>c'. for_loop 0 (n - pos) ?body C = Inr c' \<and> I (n - pos) c'"
    by (rule for_loop_rule [where I = I, OF init _ step]) simp_all
  then show ?thesis by (auto simp: I_def)
qed

lemma els_take: "els m cs \<Longrightarrow> els m (take n cs)"
  by (auto simp: els_def dest: in_set_takeD)

lemma rs_berlekamp_massey_total:
  assumes gf: "good_field m p (rs_field rs)"
    and sy: "els m syndromes" "length syndromes = rs_parity_length rs"
  shows "\<exists>locator. rs_berlekamp_massey rs syndromes = Inr locator \<and> els m locator"
proof -
  have m32: "m < 32" by (rule good_field_m32 [OF gf])
  have m1: "1 \<le> m" using gf good_polyD(1) [of m p] by (simp add: good_field_def)
  let ?pl = "rs_parity_length rs" and ?gf = "rs_field rs"
  define I where "I = (\<lambda>(i :: nat) (st :: bm_state).
     els m (bm_C st) \<and> length (bm_C st) = ?pl + 1 \<and>
     els m (bm_B st) \<and> length (bm_B st) = ?pl + 1 \<and> bm_L st \<le> i)"
  let ?body = "\<lambda>i st.
                 then_do (discrepancy ?gf syndromes (bm_C st) (bm_L st) i) (\<lambda>d.
                 if d = 0 then Inr (st\<lparr> bm_pos := bm_pos st + 1 \<rparr>)
                 else
                   then_do (inverse_gf ?gf d) (\<lambda>d_inv.
                   then_do (for_loop 0 (?pl + 1 - bm_pos st)
                              (\<lambda>idx C. then_do (multiply ?gf d_inv (bm_B st ! idx))
                                 (\<lambda>t. Inr (C[idx + bm_pos st := add (C ! (idx + bm_pos st)) t])))
                              (bm_C st))
                     (\<lambda>C'. if 2 * bm_L st \<le> i
                           then Inr (st\<lparr> bm_L := i + 1 - bm_L st, bm_T := bm_C st,
                                          bm_C := C', bm_B := bm_C st, bm_pos := 1 \<rparr>)
                           else Inr (st\<lparr> bm_T := bm_C st, bm_C := C',
                                          bm_pos := bm_pos st + 1 \<rparr>))))"
  let ?zeros = "replicate (?pl + 1) (0 :: Element)"
  let ?init = "\<lparr> bm_L = 0, bm_pos = 1, bm_C = ?zeros[0 := 1], bm_B = ?zeros[0 := 1],
                 bm_T = ?zeros \<rparr>"
  have ez: "els m (?zeros[0 := 1])"
    using zero_lt_2p [OF m32] one_lt_2p [OF m1 m32]
    by (intro els_update) (simp_all add: els_def)
  have init: "I 0 ?init" using ez by (simp add: I_def)
  have step: "\<exists>st'. ?body i st = Inr st' \<and> I (Suc i) st'" if i: "i < ?pl" and inv: "I i st" for i st
  proof -
    have C: "els m (bm_C st)" "length (bm_C st) = ?pl + 1"
      and B: "els m (bm_B st)" "length (bm_B st) = ?pl + 1" and L: "bm_L st \<le> i"
      using inv by (simp_all add: I_def)
    have LC: "bm_L st < length (bm_C st)" using L i C(2) by simp
    have isy: "i < length syndromes" using i sy(2) by simp
    obtain d where d: "discrepancy ?gf syndromes (bm_C st) (bm_L st) i = Inr d" "d < 2 ^ m"
      using discrepancy_total [OF gf sy(1) isy C(1) LC L] by blast
    show ?thesis
    proof (cases "d = 0")
      case True
      then have "?body i st = Inr (st\<lparr> bm_pos := bm_pos st + 1 \<rparr>)" by (simp add: d(1))
      moreover have "I (Suc i) (st\<lparr> bm_pos := bm_pos st + 1 \<rparr>)"
        using C B L by (simp add: I_def)
      ultimately show ?thesis by blast
    next
      case False
      obtain d_inv where di: "inverse_gf ?gf d = Inr d_inv" "d_inv < 2 ^ m"
        using good_field_inverse [OF gf d(2) False] by blast
      obtain C' where C': "for_loop 0 (?pl + 1 - bm_pos st)
              (\<lambda>idx C. then_do (multiply ?gf d_inv (bm_B st ! idx))
                 (\<lambda>t. Inr (C[idx + bm_pos st := add (C ! (idx + bm_pos st)) t])))
              (bm_C st) = Inr C'" "els m C'" "length C' = ?pl + 1"
        using bm_update_total [OF gf C B di(2), of "bm_pos st"] by blast
      show ?thesis
      proof (cases "2 * bm_L st \<le> i")
        case True
        let ?st' = "st\<lparr> bm_L := i + 1 - bm_L st, bm_T := bm_C st,
                         bm_C := C', bm_B := bm_C st, bm_pos := 1 \<rparr>"
        have "?body i st = Inr ?st'"
          using False True by (simp only: d(1) then_do_Inr di(1) C'(1) if_False if_True)
        moreover have "I (Suc i) ?st'" using C C' by (simp add: I_def)
        ultimately show ?thesis by blast
      next
        case F2: False
        let ?st' = "st\<lparr> bm_T := bm_C st, bm_C := C', bm_pos := bm_pos st + 1 \<rparr>"
        have "?body i st = Inr ?st'"
          using False F2 by (simp only: d(1) then_do_Inr di(1) C'(1) if_False if_True)
        moreover have "I (Suc i) ?st'" using B C' L by (simp add: I_def)
        ultimately show ?thesis by blast
      qed
    qed
  qed
  have "\<exists>st'. for_loop 0 ?pl ?body ?init = Inr st' \<and> I ?pl st'"
    by (rule for_loop_rule [where I = I, OF init _ step]) simp_all
  then obtain st' where st': "for_loop 0 ?pl ?body ?init = Inr st'" "I ?pl st'" by blast
  have fin: "bm_L st' + 1 \<le> length (bm_C st')" "els m (bm_C st')"
    using st'(2) by (simp_all add: I_def)
  have "rs_berlekamp_massey rs syndromes = Inr (normalize (take (bm_L st' + 1) (bm_C st')))"
    unfolding rs_berlekamp_massey_def Let_def st'(1) then_do_Inr using fin(1) by simp
  moreover have "els m (normalize (take (bm_L st' + 1) (bm_C st')))"
    by (rule els_normalize [OF m32 els_take [OF fin(2)]])
  ultimately show ?thesis by blast
qed

lemma get_primitive_range:
  assumes gf: "good_field m p gf" and m2: "2 \<le> m"
  shows "get_primitive < 2 ^ m"
  using two_lt_2p [OF m2 good_field_m32 [OF gf]] by (simp add: get_primitive_def)

lemma rs_chien_search_total:
  assumes gf: "good_field m p (rs_field rs)" and m2: "2 \<le> m" and loc: "els m locator"
  shows "\<exists>positions. rs_chien_search rs locator = Inr positions"
proof -
  define I where "I = (\<lambda>(i :: nat) (ps :: nat list). True)"
  let ?body = "\<lambda>i positions.
          then_do (power_gf (rs_field rs) get_primitive (of_nat (rs_n rs - 1 - i))) (\<lambda>alpha_inv.
          then_do (evaluate (rs_field rs) locator alpha_inv) (\<lambda>v.
          Inr (if v = 0 then positions @ [i] else positions)))"
  have step: "\<exists>s'. ?body i s = Inr s' \<and> I (Suc i) s'" if "i < rs_n rs" "I i s" for i s
  proof -
    obtain ai where ai: "power_gf (rs_field rs) get_primitive (of_nat (rs_n rs - 1 - i)) = Inr ai"
      "ai < 2 ^ m"
      using good_field_power [OF gf get_primitive_range [OF gf m2]] by blast
    obtain v where v: "evaluate (rs_field rs) locator ai = Inr v"
      using good_field_evaluate [OF gf ai(2) loc] by blast
    show ?thesis by (simp only: ai(1) then_do_Inr v I_def) simp
  qed
  have "\<exists>s'. for_loop 0 (rs_n rs) ?body [] = Inr s' \<and> I (rs_n rs) s'"
    by (rule for_loop_rule [where I = I, OF _ _ step]) (simp_all add: I_def)
  then show ?thesis by (auto simp: rs_chien_search_def)
qed

lemma els_derivative:
  assumes "m < 32" "els m locator"
  shows "els m (normalize (derivative_coeffs locator))"
proof -
  have "coeff locator i < 2 ^ m" for i
    using assms zero_lt_2p [OF assms(1)] els_nth [OF assms(2)] by (simp add: coeff_def)
  then have "els m (derivative_coeffs locator)"
    by (auto simp: els_def derivative_coeffs_def)
  then show ?thesis by (rule els_normalize [OF assms(1)])
qed

lemma forney_algorithm_total:
  assumes gf: "good_field m p (rs_field rs)" and m2: "2 \<le> m"
    and sy: "els m syndromes" and loc: "els m locator"
  shows "\<exists>values. forney_algorithm rs syndromes locator positions = Inr values"
proof -
  have m32: "m < 32" by (rule good_field_m32 [OF gf])
  let ?gf = "rs_field rs"
  have es: "els m (normalize (rev syndromes))" using els_normalize [OF m32] sy by simp
  obtain ev where ev: "poly_mul ?gf (normalize (rev syndromes)) locator = Inr ev" "els m ev"
    using poly_mul_eq [OF gf es loc] by blast
  let ?der = "normalize (derivative_coeffs locator)"
  have ed: "els m ?der" by (rule els_derivative [OF m32 loc])
  define I where "I = (\<lambda>(i :: nat) (vs :: Element list). True)"
  let ?body = "\<lambda>i error_values.
                 then_do (power_gf ?gf get_primitive (of_nat (rs_n rs - 1 - positions ! i)))
                   (\<lambda>alpha_inv.
                 then_do (evaluate ?gf ev alpha_inv) (\<lambda>numerator.
                 then_do (evaluate ?gf ?der alpha_inv) (\<lambda>denominator.
                 if denominator \<noteq> 0
                 then then_do (divide_gf ?gf numerator denominator)
                        (\<lambda>v. Inr (error_values[i := v]))
                 else Inr error_values)))"
  have step: "\<exists>s'. ?body i s = Inr s' \<and> I (Suc i) s'" if "i < length positions" "I i s" for i s
  proof -
    obtain ai where ai: "power_gf ?gf get_primitive (of_nat (rs_n rs - 1 - positions ! i)) = Inr ai"
      "ai < 2 ^ m"
      using good_field_power [OF gf get_primitive_range [OF gf m2]] by blast
    obtain num where num: "evaluate ?gf ev ai = Inr num" "num < 2 ^ m"
      using good_field_evaluate [OF gf ai(2) ev(2)] by blast
    obtain den where den: "evaluate ?gf ?der ai = Inr den" "den < 2 ^ m"
      using good_field_evaluate [OF gf ai(2) ed] by blast
    show ?thesis
    proof (cases "den = 0")
      case True
      then show ?thesis by (simp only: ai(1) then_do_Inr num(1) den(1) I_def) simp
    next
      case False
      obtain v where v: "divide_gf ?gf num den = Inr v"
        using good_field_divide [OF gf num(2) den(2) False] by blast
      show ?thesis using False by (simp only: ai(1) then_do_Inr num(1) den(1) I_def) (simp add: v)
    qed
  qed
  have "\<exists>s'. for_loop 0 (length positions) ?body (replicate (length positions) 0) = Inr s'
           \<and> I (length positions) s'"
    by (rule for_loop_rule [where I = I, OF _ _ step]) (simp_all add: I_def)
  then show ?thesis
    unfolding forney_algorithm_def Let_def ev(1) then_do_Inr by auto
qed

lemma generate_polynomial_total:
  assumes gf: "good_field m p gf" and m2: "2 \<le> m"
  shows "\<exists>g. generate_polynomial gf parity_length = Inr g \<and> els m g"
proof -
  have m32: "m < 32" by (rule good_field_m32 [OF gf])
  have m1: "1 \<le> m" using m2 by simp
  define I where "I = (\<lambda>(i :: nat) (g :: Element list). els m g)"
  let ?body = "\<lambda>i gen_poly. then_do (power_gf gf get_primitive (of_nat i))
          (\<lambda>root. poly_mul gf gen_poly (normalize [root, 1]))"
  have init: "I 1 (normalize [1])"
    using els_normalize [OF m32, of "[1]"] one_lt_2p [OF m1 m32] by (simp add: I_def)
  have step: "\<exists>s'. ?body i s = Inr s' \<and> I (Suc i) s'" if "i < parity_length + 1" "I i s" for i s
  proof -
    obtain root where root: "power_gf gf get_primitive (of_nat i) = Inr root" "root < 2 ^ m"
      using good_field_power [OF gf get_primitive_range [OF gf m2]] by blast
    have ef: "els m (normalize [root, 1])"
      using els_normalize [OF m32, of "[root, 1]"] root(2) one_lt_2p [OF m1 m32] by simp
    have es: "els m s" using that(2) by (simp add: I_def)
    obtain g' where "poly_mul gf s (normalize [root, 1]) = Inr g'" "els m g'"
      using poly_mul_eq [OF gf es ef] by blast
    then show ?thesis by (simp only: root(1) then_do_Inr I_def) simp
  qed
  have "\<exists>s'. for_loop 1 (parity_length + 1) ?body (normalize [1]) = Inr s'
           \<and> I (parity_length + 1) s'"
    by (rule for_loop_rule [where I = I, OF init _ step]) simp_all
  then show ?thesis by (auto simp: generate_polynomial_def I_def)
qed

lemma rs_decode_total:
  assumes gf: "good_field m p (rs_field rs)" and m2: "2 \<le> m"
    and rx: "els m received" "rs_n rs \<le> length received"
  shows "\<exists>syndromes. calculate_syndromes rs received = Inr syndromes
           \<and> (list_ex (\<lambda>s. s \<noteq> 0) syndromes \<longrightarrow>
                (\<exists>locator positions res.
                   rs_berlekamp_massey rs syndromes = Inr locator
                   \<and> rs_chien_search rs locator = Inr positions
                   \<and> rs_decode rs received = Inr res
                   \<and> (success res = False
                        \<longleftrightarrow> length positions > error_correction_capability rs)))"
proof -
  obtain syndromes where sy: "calculate_syndromes rs received = Inr syndromes"
    "length syndromes = rs_parity_length rs" "els m syndromes"
    using calculate_syndromes_total [OF gf m2 rx] by blast
  obtain locator where loc: "rs_berlekamp_massey rs syndromes = Inr locator" "els m locator"
    using rs_berlekamp_massey_total [OF gf sy(3,2)] by blast
  obtain positions where pos: "rs_chien_search rs locator = Inr positions"
    using rs_chien_search_total [OF gf m2 loc(2)] by blast
  obtain vals where vals: "forney_algorithm rs syndromes locator positions = Inr vals"
    using forney_algorithm_total [OF gf m2 sy(3) loc(2)] by blast
  have "\<exists>res. rs_decode rs received = Inr res
          \<and> (success res = False \<longleftrightarrow> length positions > error_correction_capability rs)"
    if "list_ex (\<lambda>s. s \<noteq> 0) syndromes"
    using that by (simp add: rs_decode_def sy(1) loc(1) pos vals Let_def)
  then show ?thesis using sy(1) loc(1) pos by blast
qed

section \<open>The invariants of the tables\<close>

lemma orbit_1:
  assumes "2 \<le> m" "m < 32"
  shows "orbit m p 1 = 2"
proof -
  have "\<not> bit (1 :: Element) (m - 1)" using assms by (simp add: bit_1_iff)
  then have "shift_reduce m p 1 = push_bit 1 1"
    using shift_reduce_alt [of m p 1] assms by simp
  then show ?thesis using orbit_Suc [of m p 0] by simp
qed

lemma log_of_alpha:
  assumes m: "2 \<le> m" "m < 31" and ok: "field_tables_ok m p gf" and prim: "is_primitive_poly m p"
  shows "array_get (log_table gf) (unat (2 :: Element)) = Inr 1"
proof -
  have m1: "1 \<le> m" "m < 32" using m by simp_all
  have per: "orbit m p (2 ^ m - 1) = 1" "\<forall>i \<in> {1..<2 ^ m - 1}. orbit m p i \<noteq> 1"
    using prim by (simp_all add: is_primitive_poly_def)
  have "(2::nat) ^ 2 \<le> 2 ^ m" using m(1) by (intro power_increasing) simp_all
  then have N: "(1::nat) < 2 ^ m - 1" by simp
  have two: "(2 :: Element) < 2 ^ m" using two_lt_2p [OF m(1) m1(2)] .
  obtain i where i: "i < 2 ^ m - 1" "2 = orbit m p i"
    "array_get (log_table gf) (unat (2 :: Element)) = Inr (of_nat i)"
    using log_get [OF m1(1) m(2) ok prim _ two] by auto
  have "orbit m p i = orbit m p 1" using i(2) orbit_1 [OF m(1) m1(2), of p] by simp
  then have "i = 1" using orbit_inj [OF per i(1) N] by blast
  then show ?thesis using i(3) by simp
qed

text \<open>
  For a primitive polynomial the constructor's tables satisfy \<open>exp[0] = 1\<close> and
  \<open>exp[log[a]] = a\<close> for every non-zero field element, and \<open>\<alpha> = 2\<close> has order
  exactly \<open>2^m - 1\<close> under the library's own \<open>power\<close>: \<open>power(\<alpha>, e) = 1\<close>
  exactly when \<open>2^m - 1\<close> divides \<open>e\<close>.
\<close>

lemma tables_invariants:
  assumes m: "2 \<le> m" "m < 31" and prim: "is_primitive_poly m p"
  shows "\<exists>gf. GaloisField_new m p = Inr gf
           \<and> array_get (exp_table gf) 0 = Inr 1
           \<and> (\<forall>a. a \<noteq> 0 \<longrightarrow> a < 2 ^ m \<longrightarrow>
                 (\<exists>l. array_get (log_table gf) (unat a) = Inr l
                      \<and> array_get (exp_table gf) (unat l) = Inr a))
           \<and> (\<forall>e. power_gf gf get_primitive e = Inr 1 \<longleftrightarrow> (2 ^ m - 1) dvd unat e)"
proof -
  have m1: "1 \<le> m" "m < 32" using m by simp_all
  have per: "orbit m p (2 ^ m - 1) = 1" "\<forall>i \<in> {1..<2 ^ m - 1}. orbit m p i \<noteq> 1"
    using prim by (simp_all add: is_primitive_poly_def)
  have N: "(0::nat) < 2 ^ m - 1" using pow2_gt1 [OF m1(1)] by simp
  obtain gf where gf: "GaloisField_new m p = Inr gf" and ok: "field_tables_ok m p gf"
    using GaloisField_new_primitive [OF m1(1) m(2) prim] by blast
  have gm: "gf_m gf = m" using ok by (simp add: field_tables_ok_def)
  have e0: "array_get (exp_table gf) 0 = Inr 1"
    using exp_get [OF ok prim N] by simp
  have el: "\<exists>l. array_get (log_table gf) (unat a) = Inr l
                \<and> array_get (exp_table gf) (unat l) = Inr a"
    if a: "a \<noteq> 0" "a < 2 ^ m" for a
  proof -
    obtain i where i: "i < 2 ^ m - 1" "a = orbit m p i"
      "array_get (log_table gf) (unat a) = Inr (of_nat i)"
      using log_get [OF m1(1) m(2) ok prim a] by blast
    have "(2::nat) ^ m < 2 ^ 32" using m1(2) by (intro power_strict_increasing) simp_all
    then have "i < 2 ^ 32" using i(1) by simp
    then have "unat (of_nat i :: Element) = i" by (rule unat_of_nat_32)
    then have "array_get (exp_table gf) (unat (of_nat i :: Element)) = Inr a"
      using exp_get [OF ok prim i(1)] i(2) by simp
    then show ?thesis using i(3) by blast
  qed
  have pw: "power_gf gf get_primitive e = Inr 1 \<longleftrightarrow> (2 ^ m - 1) dvd unat e" for e
  proof -
    let ?k = "unat (e mod (field_size m - 1))"
    have k: "?k = unat e mod (2 ^ m - 1)"
      by (simp add: unat_mod unat_field_size_m1 [OF m1(2)])
    have klt: "?k < 2 ^ m - 1" using index_lt [OF m1] .
    have "power_gf gf get_primitive e = array_get (exp_table gf) ?k"
      using log_of_alpha [OF m ok prim]
      by (simp add: power_gf_def get_primitive_def gm Let_def)
    then have p: "power_gf gf get_primitive e = Inr (orbit m p ?k)"
      using exp_get [OF ok prim klt] by simp
    have "orbit m p ?k = 1 \<longleftrightarrow> ?k = 0"
    proof
      assume "orbit m p ?k = 1"
      then have "orbit m p ?k = orbit m p 0" by simp
      then show "?k = 0" using orbit_inj [OF per klt N] by blast
    next
      assume "?k = 0"
      then show "orbit m p ?k = 1" by simp
    qed
    then show ?thesis using p k by (simp add: dvd_eq_mod_eq_0)
  qed
  show ?thesis using gf e0 el pw by blast
qed

text \<open>The eight polynomials that \<open>get_default_primitive\<close> has in its table are
  primitive.\<close>

lemma default_polynomials_primitive:
  "list_all (\<lambda>m. is_primitive_poly m (get_default_primitive m)) [3, 4, 5, 6, 7, 8, 10, 12]"
proof -
  have "is_primitive_poly 3 0x0B"
    by (rule primitive_by_walk_numeral [where u = 5])
       (simp_all add: valid_poly_def walk_eval)
  moreover have "is_primitive_poly 4 0x13"
    by (rule primitive_by_walk_numeral [where u = 9])
       (simp_all add: valid_poly_def walk_eval)
  moreover have "is_primitive_poly 5 0x25"
    by (rule primitive_by_walk_numeral [where u = 18])
       (simp_all add: valid_poly_def walk_eval)
  moreover have "is_primitive_poly 6 0x43"
    by (rule primitive_by_walk_numeral [where u = 33])
       (simp_all add: valid_poly_def walk_eval)
  moreover have "is_primitive_poly 7 0x89"
    by (rule primitive_by_walk_numeral [where u = 68])
       (simp_all add: valid_poly_def walk_eval)
  moreover have "is_primitive_poly 8 0x11D"
    by (rule primitive_by_walk_numeral [where u = 142])
       (simp_all add: valid_poly_def walk_eval)
  moreover have "is_primitive_poly 10 0x409"
    by (rule primitive_by_walk_numeral [where u = 516])
       (simp_all add: valid_poly_def walk_eval)
  moreover have "is_primitive_poly 12 0x1053"
    by (rule primitive_by_walk_numeral [where u = 2089])
       (simp_all add: valid_poly_def walk_eval)
  ultimately show ?thesis by (simp add: get_default_primitive_def)
qed

text \<open>So for \<open>m\<close> = 3, 4, 5, 6, 7, 8, 10 and 12 the field built from the default
  polynomial has the three invariants.\<close>

lemma default_tables_invariants:
  assumes "m \<in> set [3, 4, 5, 6, 7, 8, 10, 12]"
  shows "\<exists>gf. GaloisField_new m (get_default_primitive m) = Inr gf
           \<and> array_get (exp_table gf) 0 = Inr 1
           \<and> (\<forall>a. a \<noteq> 0 \<longrightarrow> a < 2 ^ m \<longrightarrow>
                 (\<exists>l. array_get (log_table gf) (unat a) = Inr l
                      \<and> array_get (exp_table gf) (unat l) = Inr a))
           \<and> (\<forall>e. power_gf gf get_primitive e = Inr 1 \<longleftrightarrow> (2 ^ m - 1) dvd unat e)"
proof -
  have "\<forall>m \<in> set [3, 4, 5, 6, 7, 8, 10, 12]. is_primitive_poly m (get_default_primitive m)"
    using default_polynomials_primitive unfolding list_all_iff .
  then have "is_primitive_poly m (get_default_primitive m)" using assms by blast
  moreover have "2 \<le> m" "m < 31" using assms by auto
  ultimately show ?thesis by (intro tables_invariants)
qed

section \<open>Field division\<close>

text \<open>
  C4.  The claim: \<open>divide(a, b)\<close> returns
  \<open>exp[(log[a] - log[b] + 2^m - 1) mod (2^m - 1)]\<close> with the index computed in
  exact arithmetic, so that \<open>multiply(divide(a, b), b) = a\<close>.
  In the field GF(16) built from the default polynomial \<open>0x13\<close> the source computes
  \<open>divide(1, 2) = 1\<close>: \<open>log[1] - log[2] = 0 - 1\<close> wraps to \<open>2^32 - 1\<close> in
  \<open>uint32_t\<close> before it is widened to \<open>size_t\<close>, and \<open>2^32 + 14\<close> is \<open>0\<close>
  modulo \<open>15\<close>, where the exact index is \<open>14\<close> and \<open>exp[14] = 9\<close>.
  Multiplying the quotient back by \<open>2\<close> gives \<open>2\<close>, not \<open>1\<close>; the sibling
  \<open>inverse\<close> returns the right value \<open>9\<close>.
\<close>

theorem divide_wraps_before_widening:
  "then_do (GaloisField_new 4 0x13) (\<lambda>gf. divide_gf gf 1 2) = Inr 1
   \<and> then_do (GaloisField_new 4 0x13)
        (\<lambda>gf. then_do (divide_gf gf 1 2) (\<lambda>q. multiply gf q 2)) = Inr 2
   \<and> then_do (GaloisField_new 4 0x13) (\<lambda>gf. array_get (log_table gf) 1) = Inr 0
   \<and> then_do (GaloisField_new 4 0x13) (\<lambda>gf. array_get (log_table gf) 2) = Inr 1
   \<and> then_do (GaloisField_new 4 0x13) (\<lambda>gf. array_get (exp_table gf) ((0 + 15 - 1) mod 15)) = Inr 9
   \<and> then_do (GaloisField_new 4 0x13) (\<lambda>gf. inverse_gf gf 2) = Inr 9
   \<and> then_do (GaloisField_new 4 0x13) (\<lambda>gf. multiply gf 9 2) = Inr 1"
  by code_simp

section \<open>Hamming single-error correction\<close>

text \<open>
  C1.  The claim: decoding \<open>encode(d)\<close> with position \<open>p\<close> flipped reports
  position \<open>p\<close> and recovers \<open>d\<close>.
  In \<open>Hamming_7_4\<close> the parity-check column of data position \<open>0\<close> is the binary
  form of \<open>1\<close>, which is also the column of parity position \<open>4\<close>; the syndrome
  table keeps the later position.  For \<open>d = 0000\<close> and \<open>p = 0\<close> the decoder
  flips bit \<open>4\<close>, reports position \<open>4\<close> and returns the data \<open>1000\<close>.
\<close>

theorem hamming_7_4_flip_0_miscorrected:
  "decode_with_detection (HammingCode_new 7 4)
     (flip (hamming_encode (HammingCode_new 7 4) [False, False, False, False]) 0)
   = \<lparr> hd_data = [True, False, False, False], error_detected = True, error_position = 4 \<rparr>
   \<and> ValidHammingParams 7 4
   \<and> syndrome_table (HammingCode_new 7 4) = [7, 4, 5, 2, 6, 7, 7, 7]"
  by code_simp

section \<open>Construction with an arbitrary polynomial\<close>




section \<open>Default polynomials\<close>

text \<open>
  C8.  The claim: for every supported \<open>m\<close> the field built from
  \<open>get_default_primitive<m>()\<close> has \<open>exp[0] = 1\<close>, \<open>exp[log[a]] = a\<close> and \<open>\<alpha>\<close> of
  order exactly \<open>2^m - 1\<close>.  For \<open>m = 9\<close> and \<open>m = 11\<close> the function falls through
  to \<open>(1u << m) | 3\<close>, the polynomial \<open>x\<^sup>m + x + 1\<close>.  For \<open>m = 9\<close>, \<open>x\<close> has order
  73 under it: the exponent table repeats, \<open>exp[73] = exp[0] = 1\<close>, so
  \<open>\<alpha>\<^bsup>73\<^esup> = 1\<close> with \<open>73 < 511\<close>.  For \<open>m = 11\<close>, \<open>x\<close> has order 1533, which does not
  divide 2047: \<open>exp[1533] = 1\<close>, and the last round of the construction loop
  overwrites \<open>exp[0]\<close> with \<open>x\<^bsup>2047\<^esup> = 869\<close>, so \<open>exp[0] \<noteq> 1\<close>.
\<close>

theorem default_tables_for_m9_m11_break_invariants:
  "(\<exists>gf. GaloisField_new 9 (get_default_primitive 9) = Inr gf
        \<and> get_default_primitive 9 = 0x203
        \<and> array_get (exp_table gf) 0 = Inr 1
        \<and> array_get (exp_table gf) 73 = Inr 1)
   \<and> (\<exists>gf. GaloisField_new 11 (get_default_primitive 11) = Inr gf
        \<and> get_default_primitive 11 = 0x803
        \<and> array_get (exp_table gf) 0 = Inr 869
        \<and> array_get (exp_table gf) 1533 = Inr 1)"
proof -
  have vp: "valid_poly 9 0x203" by (simp add: valid_poly_def)
  have d: "get_default_primitive 9 = 0x203" by (simp add: get_default_primitive_def)
  obtain gf where gf: "GaloisField_new 9 0x203 = Inr gf" "exp_table gf = exp_spec 9 0x203"
    using GaloisField_new_total [of 9 "0x203", OF _ _ vp] by auto
  have o73: "orbit 9 0x203 73 = 1" by (simp add: orbit_eval)
  have o511: "orbit 9 0x203 511 = 1" by (simp add: orbit_eval)
  have "exp_spec 9 0x203 ! 73 = Some 1"
    using exp_spec_nth [of 73 9 "0x203"] o73 by simp
  moreover have "exp_spec 9 0x203 ! 0 = Some 1"
    using exp_spec_nth [of 0 9 "0x203"] o511 by simp
  ultimately have "array_get (exp_table gf) 0 = Inr 1" "array_get (exp_table gf) 73 = Inr 1"
    by (simp_all add: gf(2) array_get_def)
  then have m9: "\<exists>gf. GaloisField_new 9 (get_default_primitive 9) = Inr gf
        \<and> get_default_primitive 9 = 0x203
        \<and> array_get (exp_table gf) 0 = Inr 1
        \<and> array_get (exp_table gf) 73 = Inr 1"
    using gf(1) d by simp
  have vp': "valid_poly 11 0x803" by (simp add: valid_poly_def)
  have d': "get_default_primitive 11 = 0x803" by (simp add: get_default_primitive_def)
  obtain gf' where gf': "GaloisField_new 11 0x803 = Inr gf'" "exp_table gf' = exp_spec 11 0x803"
    using GaloisField_new_total [of 11 "0x803", OF _ _ vp'] by auto
  have o1533: "orbit 11 0x803 1533 = 1" by (simp add: orbit_eval)
  have o2047: "orbit 11 0x803 2047 = 869" by (simp add: orbit_eval)
  have "exp_spec 11 0x803 ! 1533 = Some 1"
    using exp_spec_nth [of 1533 11 "0x803"] o1533 by simp
  moreover have "exp_spec 11 0x803 ! 0 = Some 869"
    using exp_spec_nth [of 0 11 "0x803"] o2047 by simp
  ultimately have "array_get (exp_table gf') 0 = Inr 869"
    "array_get (exp_table gf') 1533 = Inr 1"
    by (simp_all add: gf'(2) array_get_def)
  then have m11: "\<exists>gf. GaloisField_new 11 (get_default_primitive 11) = Inr gf
        \<and> get_default_primitive 11 = 0x803
        \<and> array_get (exp_table gf) 0 = Inr 869
        \<and> array_get (exp_table gf) 1533 = Inr 1"
    using gf'(1) d' by simp
  show ?thesis using m9 m11 by (rule conjI)
qed

section \<open>Table accesses of the field operations\<close>

lemma log_values_bounded:
  assumes m: "1 \<le> m" "m < 31" and ok: "field_tables_ok m p gf" and prim: "is_primitive_poly m p"
    and c: "c < 2 ^ m" and l: "log_table gf ! c = Some l"
  shows "unat l < 2 ^ m - 1"
proof (cases "c = 0")
  case True
  then have "l = 0" using ok l by (simp add: field_tables_ok_def)
  then show ?thesis using pow2_gt1 [OF m(1)] by simp
next
  case False
  have m32: "m < 32" using m by simp
  have c32: "c < 2 ^ 32"
    using c power_strict_increasing [of m 32 "2::nat"] m32 by simp
  define a :: Element where "a = of_nat c"
  have ua: "unat a = c" using c32 by (simp add: a_def unat_of_nat_32)
  have "a \<noteq> 0" using False ua by (metis unat_0)
  moreover have "a < 2 ^ m" using unat_lt_2p [OF m32, of a] ua c by simp
  ultimately obtain i where i: "i < 2 ^ m - 1" "a = orbit m p i"
    using orbit_surj [OF m prim, of a] by blast
  have "log_table gf ! unat (orbit m p i) = Some (of_nat i)"
    using ok i(1) by (simp add: field_tables_ok_def)
  then have "l = of_nat i" using l ua i(2) by simp
  moreover have "i < 2 ^ 32"
    using i(1) power_strict_increasing [of m 32 "2::nat"] m32 by simp
  ultimately show ?thesis using i(1) by (simp add: unat_of_nat_32)
qed

text \<open>
  C10.  For every \<open>m\<close> from 3 to 12, every primitive polynomial of degree \<open>m\<close>
  and all \<open>a, b < 2^m\<close>: the constructor returns a field with two tables of
  \<open>2^m\<close> cells, and \<open>multiply\<close>, \<open>power\<close>, \<open>divide\<close> (for \<open>b \<noteq> 0\<close>) and
  \<open>inverse\<close> (for \<open>a \<noteq> 0\<close>) return a value, that is, none of their table reads
  is out of range or hits a cell that was never written.  Every stored logarithm
  is below \<open>2^m - 1\<close>, and every index of the form \<open>x mod (field_size - 1)\<close> is
  below \<open>2^m - 1\<close>; the one cell the operations could not read, \<open>exp[2^m - 1]\<close>,
  is the one the constructor leaves unwritten.
\<close>

theorem field_operations_stay_in_range:
  assumes "3 \<le> m" "m \<le> 12" "is_primitive_poly m p" "a < 2 ^ m" "b < 2 ^ m"
  shows "\<exists>gf. GaloisField_new m p = Inr gf
           \<and> length (exp_table gf) = 2 ^ m \<and> length (log_table gf) = 2 ^ m
           \<and> (\<exists>r. multiply gf a b = Inr r)
           \<and> (\<forall>e. \<exists>r. power_gf gf a e = Inr r)
           \<and> (b \<noteq> 0 \<longrightarrow> (\<exists>r. divide_gf gf a b = Inr r))
           \<and> (a \<noteq> 0 \<longrightarrow> (\<exists>r. inverse_gf gf a = Inr r))
           \<and> (\<forall>c l. c < 2 ^ m \<longrightarrow> log_table gf ! c = Some l \<longrightarrow> unat l < 2 ^ m - 1)
           \<and> (\<forall>x. unat (x mod (field_size m - 1)) < 2 ^ m - 1)
           \<and> array_get (exp_table gf) (2 ^ m - 1) = Inl Indeterminate"
proof -
  have m: "1 \<le> m" "m < 31" and m32: "m < 32" using assms by simp_all
  obtain gf where gf: "GaloisField_new m p = Inr gf" and ok: "field_tables_ok m p gf"
    using GaloisField_new_primitive [OF m assms(3)] by blast
  have e: "exp_table gf = exp_spec m p" and ll: "length (log_table gf) = 2 ^ m"
    using ok by (simp_all add: field_tables_ok_def)
  have last: "array_get (exp_table gf) (2 ^ m - 1) = Inl Indeterminate"
    using exp_spec_nth [of "2 ^ m - 1" m p] pow2_gt1 [OF m(1)]
    by (simp add: e array_get_def)
  have "\<exists>r. multiply gf a b = Inr r"
    using multiply_total [OF m ok assms(3,4,5)] by blast
  moreover have "\<exists>r. power_gf gf a e = Inr r" for e
    using power_total [OF m ok assms(3,4)] by blast
  moreover have "\<exists>r. divide_gf gf a b = Inr r" if "b \<noteq> 0"
    using divide_total [OF m ok assms(3,4,5) that] by blast
  moreover have "\<exists>r. inverse_gf gf a = Inr r" if "a \<noteq> 0"
    using inverse_total [OF m ok assms(3,4) that] by blast
  moreover have "unat l < 2 ^ m - 1" if "c < 2 ^ m" "log_table gf ! c = Some l" for c l
    using log_values_bounded [OF m ok assms(3) that] .
  moreover have "unat (x mod (field_size m - 1)) < 2 ^ m - 1" for x
    using index_lt [OF m(1) m32] .
  ultimately show ?thesis using gf e ll last by (intro exI [of _ gf]) simp
qed

theorem field_operations_stay_in_range_witness:
  "is_primitive_poly 3 0x0B \<and> (3 :: Element) < 2 ^ 3 \<and> (5 :: Element) < 2 ^ 3 \<and>
   (\<exists>gf. GaloisField_new 3 0x0B = Inr gf
           \<and> length (exp_table gf) = 2 ^ 3 \<and> length (log_table gf) = 2 ^ 3
           \<and> (\<exists>r. multiply gf 3 5 = Inr r)
           \<and> (\<forall>e. \<exists>r. power_gf gf 3 e = Inr r)
           \<and> ((5 :: Element) \<noteq> 0 \<longrightarrow> (\<exists>r. divide_gf gf 3 5 = Inr r))
           \<and> ((3 :: Element) \<noteq> 0 \<longrightarrow> (\<exists>r. inverse_gf gf 3 = Inr r))
           \<and> (\<forall>c l. c < 2 ^ 3 \<longrightarrow> log_table gf ! c = Some l \<longrightarrow> unat l < 2 ^ 3 - 1)
           \<and> (\<forall>x. unat (x mod (field_size 3 - 1)) < 2 ^ 3 - 1)
           \<and> array_get (exp_table gf) (2 ^ 3 - 1) = Inl Indeterminate)"
proof -
  have h1: "(3 :: Element) < 2 ^ 3" and h2: "(5 :: Element) < 2 ^ 3" by simp_all
  show ?thesis
    using primitive_0x0B h1 h2
      field_operations_stay_in_range [of 3 "0x0B" 3 5, OF _ _ primitive_0x0B h1 h2]
    by simp
qed

section \<open>The BCH generator polynomial\<close>

text \<open>
  C5.  The claim: the generator polynomial has degree equal to the parity length
  \<open>m * t\<close>.  For \<open>BCH_15_7_3 = BCHCode<4, 1>\<close> the roots are \<open>\<alpha>\<close> and \<open>\<alpha>\<^sup>2\<close>, the
  product \<open>(x - \<alpha>)(x - \<alpha>\<^sup>2)\<close> has degree 2 and coefficients outside GF(2), and
  \<open>parity_length\<close> is 4.
\<close>

theorem bch_generator_degree_differs_from_parity_length:
  "then_do (BCHCode_new 4 1 0x13) (\<lambda>bch. Inr (roots bch, generator_poly bch))
     = Inr ([2, 4], [8, 6, 1])
   \<and> then_do (BCHCode_new 4 1 0x13) (\<lambda>bch. Inr (degree (generator_poly bch))) = Inr 2
   \<and> bch_parity_length 4 1 = 4"
  by code_simp

section \<open>Round trip\<close>

text \<open>
  C2.  The claim: \<open>decode(encode(d))\<close> returns \<open>d\<close> with \<open>success = true\<close> and
  \<open>errors_corrected = 0\<close>.  For \<open>BCH_15_7_3\<close> and the data word of the library's
  own test (bits 0, 2, 3, 5 set) the encoder's word is not a code word: the
  decoder finds non-zero syndromes, flips bit 12 and returns a different data word
  with one error corrected.  For \<open>ReedSolomonCode<6, 2, 3>\<close> over the polynomial
  \<open>0x0B\<close> and data \<open>[0, 1]\<close> the decoder reports one corrected error at position 4.
\<close>

theorem roundtrip_reports_corrected_errors:
  "(case BCHCode_new 4 1 0x13 of
      Inl e \<Rightarrow> False
    | Inr bch \<Rightarrow>
        bch_encode bch [True, False, True, True, False, True, False, False, False, False, False]
          = Some (Inr [True, True, False, False, True, False, True, True, False, True,
                       False, False, False, False, False]))
   \<and> then_do (BCHCode_new 4 1 0x13)
         (\<lambda>bch. bch_decode bch [True, True, False, False, True, False, True, True, False, True,
                                 False, False, False, False, False])
       = Inr \<lparr> bd_data = [True, False, True, True, False, True, False, False, True, False, False],
                bd_success = True, bd_errors_corrected = 1, bd_error_positions = [12] \<rparr>
   \<and> ValidRSParams 6 2 3
   \<and> (case ReedSolomonCode_new 6 2 3 0x0B of
        Inl e \<Rightarrow> False
      | Inr rs \<Rightarrow> rs_encode rs [0, 1] = Some (Inr [0, 1, 5, 5, 1, 4]))
   \<and> then_do (ReedSolomonCode_new 6 2 3 0x0B) (\<lambda>rs. rs_decode rs [0, 1, 5, 5, 1, 4])
       = Inr \<lparr> dr_data = [0, 1], success = True, errors_corrected = 1, error_positions = [4] \<rparr>"
  by code_simp

section \<open>Errors within capacity\<close>

text \<open>
  C3.  The claim: every error pattern of weight \<open>w \<le> t\<close> is corrected, with the
  corrupted positions listed.  For \<open>BCH_15_5_3 = BCHCode<4, 2>\<close>, the zero code word
  with bits 2 and 8 flipped: the decoder lists positions 1 and 7 and returns data
  with bit 0 set.  For \<open>ReedSolomonCode<7, 3, 3>\<close> over \<open>0x0B\<close> (\<open>t = 2\<close>), the code
  word of \<open>[1, 2, 3]\<close> with symbols 1 and 5 changed: the positions are found, every
  error value is zero, and the data \<open>[1, 6, 3]\<close> is returned with \<open>success = true\<close>.
\<close>

theorem two_errors_within_capacity_not_corrected:
  "(case BCHCode_new 4 2 0x13 of
      Inl e \<Rightarrow> False
    | Inr bch \<Rightarrow> bch_t bch = 2
        \<and> bch_encode bch (replicate 7 False) = Some (Inr (replicate 15 False)))
   \<and> then_do (BCHCode_new 4 2 0x13)
         (\<lambda>bch. bch_decode bch (flip (flip (replicate 15 False) 2) 8))
       = Inr \<lparr> bd_data = [True, False, False, False, False, False, False],
                bd_success = True, bd_errors_corrected = 2, bd_error_positions = [1, 7] \<rparr>
   \<and> (case ReedSolomonCode_new 7 3 3 0x0B of
        Inl e \<Rightarrow> False
      | Inr rs \<Rightarrow> error_correction_capability rs = 2
          \<and> rs_encode rs [1, 2, 3] = Some (Inr [1, 2, 3, 0, 2, 0, 1]))
   \<and> then_do (ReedSolomonCode_new 7 3 3 0x0B)
         (\<lambda>rs. rs_decode rs [1, add 2 4, 3, 0, 2, add 0 1, 1])
       = Inr \<lparr> dr_data = [1, 6, 3], success = True, errors_corrected = 2,
                error_positions = [1, 5] \<rparr>"
  by code_simp

section \<open>Failure of the Reed-Solomon decoder\<close>

text \<open>
  C6, as stated: with a non-zero syndrome, \<open>success = false\<close> exactly when there
  are more than \<open>t\<close> roots or some Forney denominator is zero.  For
  \<open>ReedSolomonCode<7, 3, 3>\<close> over \<open>0x0B\<close> and the received word
  \<open>[2, 2, 0, 0, 0, 0, 0]\<close> the locator is \<open>1 + x\<^sup>2\<close>, the search finds the one
  position 6, the denominator there is zero, the symbol is left as it is and the
  result has \<open>success = true\<close> with one error counted.
\<close>

theorem zero_forney_denominator_reports_success:
  "then_do (ReedSolomonCode_new 7 3 3 0x0B) (\<lambda>rs. calculate_syndromes rs [2, 2, 0, 0, 0, 0, 0])
     = Inr [6, 1, 4, 5]
   \<and> then_do (ReedSolomonCode_new 7 3 3 0x0B) (\<lambda>rs. rs_berlekamp_massey rs [6, 1, 4, 5])
     = Inr [1, 0, 1]
   \<and> then_do (ReedSolomonCode_new 7 3 3 0x0B) (\<lambda>rs. rs_chien_search rs [1, 0, 1]) = Inr [6]
   \<and> then_do (ReedSolomonCode_new 7 3 3 0x0B) (\<lambda>rs. Inr (error_correction_capability rs)) = Inr 2
   \<and> then_do (ReedSolomonCode_new 7 3 3 0x0B)
         (\<lambda>rs. then_do (power_gf (rs_field rs) get_primitive (of_nat (7 - 1 - 6)))
                  (\<lambda>alpha_inv. evaluate (rs_field rs) (normalize (derivative_coeffs [1, 0, 1]))
                                 alpha_inv))
     = Inr 0
   \<and> then_do (ReedSolomonCode_new 7 3 3 0x0B) (\<lambda>rs. rs_decode rs [2, 2, 0, 0, 0, 0, 0])
     = Inr \<lparr> dr_data = [2, 2, 0], success = True, errors_corrected = 1,
              error_positions = [6] \<rparr>"
  by code_simp

text \<open>
  C6, amended: for every \<open>m\<close> from 3 to 12, every primitive polynomial of degree
  \<open>m\<close> and every admissible \<open>(n, k)\<close>, the codec is constructed, and on every
  received word of \<open>n\<close> field symbols the syndromes are computed; when one of them
  is non-zero, Berlekamp-Massey, the Chien search and \<open>decode\<close> all return, and
  the result has \<open>success = false\<close> exactly when the search found more than \<open>t\<close>
  positions.  A zero Forney denominator changes nothing in that.
\<close>

theorem rs_decode_fails_iff_too_many_roots:
  assumes "3 \<le> m" "m \<le> 12" "is_primitive_poly m p" "ValidRSParams n k m"
    and "length received = n" "list_all (\<lambda>s. s < 2 ^ m) received"
  shows "\<exists>rs syndromes.
           ReedSolomonCode_new n k m p = Inr rs
           \<and> calculate_syndromes rs received = Inr syndromes
           \<and> (list_ex (\<lambda>s. s \<noteq> 0) syndromes \<longrightarrow>
                (\<exists>locator positions res.
                   rs_berlekamp_massey rs syndromes = Inr locator
                   \<and> rs_chien_search rs locator = Inr positions
                   \<and> rs_decode rs received = Inr res
                   \<and> (success res = False
                        \<longleftrightarrow> length positions > error_correction_capability rs)))"
proof -
  have m: "1 \<le> m" "m < 31" "2 \<le> m" using assms by simp_all
  have g: "good_poly m p" using m assms(3) by (simp add: good_poly_def)
  obtain gf where new: "GaloisField_new m p = Inr gf" and ok: "field_tables_ok m p gf"
    using GaloisField_new_primitive [OF m(1,2) assms(3)] by blast
  have gf: "good_field m p gf" using g ok by (simp add: good_field_def)
  obtain gen where gen: "generate_polynomial gf (n - k) = Inr gen"
    using generate_polynomial_total [OF gf m(3)] by blast
  let ?rs = "\<lparr> rs_n = n, rs_k = k, rs_field = gf, rs_generator_poly = gen \<rparr>"
  have rs: "ReedSolomonCode_new n k m p = Inr ?rs"
    by (simp add: ReedSolomonCode_new_def new gen)
  have gf': "good_field m p (rs_field ?rs)" using gf by simp
  have rx: "els m received" "rs_n ?rs \<le> length received"
    using assms(5,6) by (simp_all add: els_def list_all_iff)
  show ?thesis
    using rs rs_decode_total [OF gf' m(3) rx] by blast
qed

theorem rs_decode_fails_iff_too_many_roots_witness:
  "is_primitive_poly 3 0x0B \<and> ValidRSParams 7 3 3
   \<and> length [2, 2, 0, 0, 0, 0, 0 :: Element] = 7
   \<and> list_all (\<lambda>s. s < 2 ^ 3) [2, 2, 0, 0, 0, 0, 0 :: Element]
   \<and> then_do (ReedSolomonCode_new 7 3 3 0x0B)
         (\<lambda>rs. calculate_syndromes rs [2, 2, 0, 0, 0, 0, 0]) = Inr [6, 1, 4, 5]
   \<and> (\<exists>rs syndromes.
           ReedSolomonCode_new 7 3 3 0x0B = Inr rs
           \<and> calculate_syndromes rs [2, 2, 0, 0, 0, 0, 0] = Inr syndromes
           \<and> (list_ex (\<lambda>s. s \<noteq> 0) syndromes \<longrightarrow>
                (\<exists>locator positions res.
                   rs_berlekamp_massey rs syndromes = Inr locator
                   \<and> rs_chien_search rs locator = Inr positions
                   \<and> rs_decode rs [2, 2, 0, 0, 0, 0, 0] = Inr res
                   \<and> (success res = False
                        \<longleftrightarrow> length positions > error_correction_capability rs))))"
proof -
  have h1: "ValidRSParams 7 3 3" by code_simp
  have h2: "length [2, 2, 0, 0, 0, 0, 0 :: Element] = 7" by simp
  have h3: "list_all (\<lambda>s. s < 2 ^ 3) [2, 2, 0, 0, 0, 0, 0 :: Element]" by simp
  have h4: "then_do (ReedSolomonCode_new 7 3 3 0x0B)
         (\<lambda>rs. calculate_syndromes rs [2, 2, 0, 0, 0, 0, 0]) = Inr [6, 1, 4, 5]"
    by code_simp
  show ?thesis
    using primitive_0x0B h1 h2 h3 h4
      rs_decode_fails_iff_too_many_roots [of 3 "0x0B" 7 3 "[2, 2, 0, 0, 0, 0, 0]",
        OF _ _ primitive_0x0B h1 h2 h3]
    by simp
qed


section \<open>Horner evaluation\<close>

text \<open>
  C9.  For every \<open>m\<close> from 3 to 12 and every primitive polynomial of degree \<open>m\<close>,
  in the field the constructor builds, for all coefficient lists \<open>p\<close>, \<open>q\<close> of
  field elements, every point \<open>x\<close> and every element \<open>c\<close>: \<open>evaluate\<close> returns a value
  on \<open>p\<close>, on \<open>q\<close>, on \<open>p + q\<close> and on \<open>p * q\<close>; the value of \<open>p + q\<close> is
  \<open>add(p(x), q(x))\<close>, the value of \<open>p * q\<close> is \<open>multiply(p(x), q(x))\<close>, the constant
  polynomial \<open>c\<close> evaluates to \<open>c\<close> and the polynomial \<open>x\<close> evaluates to the point.
\<close>

theorem evaluate_is_ring_homomorphism:
  assumes "3 \<le> m" "m \<le> 12" "is_primitive_poly m prim"
    and "list_all (\<lambda>a. a < 2 ^ m) p" "list_all (\<lambda>a. a < 2 ^ m) q" "x < 2 ^ m" "c < 2 ^ m"
  shows "\<exists>gf u v r. GaloisField_new m prim = Inr gf
           \<and> evaluate gf p x = Inr u \<and> evaluate gf q x = Inr v
           \<and> evaluate gf (poly_add p q) x = Inr (add u v)
           \<and> poly_mul gf p q = Inr r
           \<and> evaluate gf r x = multiply gf u v \<and> (\<exists>w. multiply gf u v = Inr w)
           \<and> evaluate gf (normalize [c]) x = Inr c
           \<and> evaluate gf (normalize [0, 1]) x = Inr x"
proof -
  have m: "1 \<le> m" "m < 31" and m32: "m < 32" using assms by simp_all
  have g: "good_poly m prim" using m assms(3) by (simp add: good_poly_def)
  obtain gf where new: "GaloisField_new m prim = Inr gf" and ok: "field_tables_ok m prim gf"
    using GaloisField_new_primitive [OF m assms(3)] by blast
  have gf: "good_field m prim gf" using g ok by (simp add: good_field_def)
  have ep: "els m p" and eq: "els m q" using assms(4,5) by (simp_all add: els_def list_all_iff)
  let ?u = "peval m prim x p" and ?v = "peval m prim x q"
  have u: "evaluate gf p x = Inr ?u" by (rule evaluate_eq [OF gf assms(6) ep])
  have v: "evaluate gf q x = Inr ?v" by (rule evaluate_eq [OF gf assms(6) eq])
  have "evaluate gf (poly_add p q) x = Inr (peval m prim x (poly_add p q))"
    by (rule evaluate_eq [OF gf assms(6) els_poly_add [OF m32 ep eq]])
  then have s: "evaluate gf (poly_add p q) x = Inr (add ?u ?v)"
    by (simp add: peval_poly_add [OF g] add_def)
  obtain r where r: "poly_mul gf p q = Inr r" "els m r"
    "peval m prim x r = gmul m prim ?u ?v"
    using poly_mul_eq [OF gf ep eq, of x] by blast
  have uv: "multiply gf ?u ?v = Inr (gmul m prim ?u ?v)"
    by (rule multiply_eq [OF gf peval_range [OF g ep] peval_range [OF g eq]])
  have pr: "evaluate gf r x = multiply gf ?u ?v"
    using evaluate_eq [OF gf assms(6) r(2)] r(3) uv by simp
  have ec: "els m (normalize [c])" "els m (normalize [0, 1])"
    using els_normalize [OF m32, of "[c]"] els_normalize [OF m32, of "[0, 1]"]
      assms(7) zero_lt_2p [OF m32] one_lt_2p [OF m(1) m32] by simp_all
  have c: "evaluate gf (normalize [c]) x = Inr c"
    using evaluate_eq [OF gf assms(6) ec(1)] by simp
  have "gmul m prim 1 x = x"
    using gmul_one_right_range [OF g assms(6)] by (simp add: gmul_commute)
  then have xx: "evaluate gf (normalize [0, 1]) x = Inr x"
    using evaluate_eq [OF gf assms(6) ec(2)] by simp
  show ?thesis using new u v s r(1) pr uv c xx by blast
qed

theorem evaluate_is_ring_homomorphism_witness:
  "is_primitive_poly 3 0x0B
   \<and> list_all (\<lambda>a. a < 2 ^ 3) [1, 2 :: Element]
   \<and> list_all (\<lambda>a. a < 2 ^ 3) [3, 0, 1 :: Element]
   \<and> (5 :: Element) < 2 ^ 3 \<and> (6 :: Element) < 2 ^ 3
   \<and> (\<exists>gf u v r. GaloisField_new 3 0x0B = Inr gf
           \<and> evaluate gf [1, 2] 5 = Inr u \<and> evaluate gf [3, 0, 1] 5 = Inr v
           \<and> evaluate gf (poly_add [1, 2] [3, 0, 1]) 5 = Inr (add u v)
           \<and> poly_mul gf [1, 2] [3, 0, 1] = Inr r
           \<and> evaluate gf r 5 = multiply gf u v \<and> (\<exists>w. multiply gf u v = Inr w)
           \<and> evaluate gf (normalize [6]) 5 = Inr 6
           \<and> evaluate gf (normalize [0, 1]) 5 = Inr 5)"
proof -
  have h1: "list_all (\<lambda>a. a < 2 ^ 3) [1, 2 :: Element]" by simp
  have h2: "list_all (\<lambda>a. a < 2 ^ 3) [3, 0, 1 :: Element]" by simp
  have h3: "(5 :: Element) < 2 ^ 3" by simp
  have h4: "(6 :: Element) < 2 ^ 3" by simp
  show ?thesis
    using primitive_0x0B h1 h2 h3 h4
      evaluate_is_ring_homomorphism [of 3 "0x0B" "[1, 2]" "[3, 0, 1]" 5 6,
        OF _ _ primitive_0x0B h1 h2 h3 h4]
    by simp
qed

end
